theory Spec2Isabelle
  imports Main "HOL-Library.Multiset"
begin

section \<open>Data model of \<open>src/main.py\<close>\<close>

text \<open>
  The four compass directions of \<open>class Direction(IntEnum)\<close>. The enumeration is
  closed, so the \<open>case _: raise ValueError()\<close> branches of the source are unreachable
  and have no counterpart here.
\<close>

datatype direction = NORTH | SOUTH | EAST | WEST

text \<open>
  The exceptions the code can raise: a failed \<open>assert\<close>, a list index out of range, and
  the \<open>ValueError\<close> of \<open>np.zeros\<close> for a negative dimension.
\<close>

datatype error = AssertionError | IndexError | ValueError

text \<open>
  The fields of \<open>class Maze\<close>. Python integers are unbounded, hence \<open>int\<close>;
  the three arrays are Python lists of booleans.
\<close>

record maze =
  n_rows :: int
  n_cols :: int
  start_pos :: "int \<times> int"
  goal_pos :: "int \<times> int"
  horizontal_edges :: "bool list"
  vertical_edges :: "bool list"
  visited :: "bool list"

subsection \<open>Python list subscripts\<close>

text \<open>
  \<open>xs[i]\<close>: a negative subscript counts from the end, and a subscript outside
  \<open>[-len, len)\<close> raises \<open>IndexError\<close>.
\<close>

definition norm_index :: "'a list \<Rightarrow> int \<Rightarrow> int" where
  "norm_index xs i = (if i < 0 then i + int (length xs) else i)"

definition index_ok :: "'a list \<Rightarrow> int \<Rightarrow> bool" where
  "index_ok xs i = (0 \<le> norm_index xs i \<and> norm_index xs i < int (length xs))"

definition getitem :: "'a list \<Rightarrow> int \<Rightarrow> error + 'a" where
  "getitem xs i = (if index_ok xs i then Inr (xs ! nat (norm_index xs i)) else Inl IndexError)"

definition setitem :: "'a list \<Rightarrow> int \<Rightarrow> 'a \<Rightarrow> error + 'a list" where
  "setitem xs i v = (if index_ok xs i then Inr (xs[nat (norm_index xs i) := v]) else Inl IndexError)"

subsection \<open>Edge and cell index arithmetic\<close>

definition get_north_edge_idx :: "maze \<Rightarrow> int \<Rightarrow> int \<Rightarrow> error + int" where
  "get_north_edge_idx m row col =
     (if \<not> (row > 0 \<and> row < n_rows m) then Inl AssertionError
      else if \<not> (col \<ge> 0 \<and> col < n_cols m) then Inl AssertionError
      else Inr (n_cols m * (row - 1) + col))"

definition get_south_edge_idx :: "maze \<Rightarrow> int \<Rightarrow> int \<Rightarrow> error + int" where
  "get_south_edge_idx m row col =
     (if \<not> (row \<ge> 0 \<and> row < n_rows m - 1) then Inl AssertionError
      else if \<not> (col \<ge> 0 \<and> col < n_cols m) then Inl AssertionError
      else Inr (n_cols m * row + col))"

text \<open>The row assertions of the east and west functions compare against \<open>_n_cols\<close>, as the source does.\<close>

definition get_east_edge_idx :: "maze \<Rightarrow> int \<Rightarrow> int \<Rightarrow> error + int" where
  "get_east_edge_idx m row col =
     (if \<not> (row \<ge> 0 \<and> row < n_cols m) then Inl AssertionError
      else if \<not> (col \<ge> 0 \<and> col < n_cols m - 1) then Inl AssertionError
      else Inr (n_cols m * row - row + col))"

definition get_west_edge_idx :: "maze \<Rightarrow> int \<Rightarrow> int \<Rightarrow> error + int" where
  "get_west_edge_idx m row col =
     (if \<not> (row \<ge> 0 \<and> row < n_cols m) then Inl AssertionError
      else if \<not> (col > 0 \<and> col < n_cols m) then Inl AssertionError
      else Inr (n_cols m * row - row + (col - 1)))"

fun get_edge_idx :: "maze \<Rightarrow> int \<Rightarrow> int \<Rightarrow> direction \<Rightarrow> error + int" where
  "get_edge_idx m row col NORTH = get_north_edge_idx m row col"
| "get_edge_idx m row col SOUTH = get_south_edge_idx m row col"
| "get_edge_idx m row col EAST = get_east_edge_idx m row col"
| "get_edge_idx m row col WEST = get_west_edge_idx m row col"

definition get_edge_at :: "maze \<Rightarrow> int \<Rightarrow> int \<Rightarrow> direction \<Rightarrow> error + bool" where
  "get_edge_at m row col d =
     (case get_edge_idx m row col d of
        Inl e \<Rightarrow> Inl e
      | Inr edge_idx \<Rightarrow>
          if d = NORTH \<or> d = SOUTH then getitem (horizontal_edges m) edge_idx
          else getitem (vertical_edges m) edge_idx)"

definition set_edge_at :: "maze \<Rightarrow> int \<Rightarrow> int \<Rightarrow> direction \<Rightarrow> bool \<Rightarrow> error + maze" where
  "set_edge_at m row col d val =
     (case get_edge_idx m row col d of
        Inl e \<Rightarrow> Inl e
      | Inr edge_idx \<Rightarrow>
          if d = NORTH \<or> d = SOUTH then
            (case setitem (horizontal_edges m) edge_idx val of
               Inl e \<Rightarrow> Inl e
             | Inr h \<Rightarrow> Inr (m\<lparr>horizontal_edges := h\<rparr>))
          else
            (case setitem (vertical_edges m) edge_idx val of
               Inl e \<Rightarrow> Inl e
             | Inr v \<Rightarrow> Inr (m\<lparr>vertical_edges := v\<rparr>)))"

definition get_cell_index :: "maze \<Rightarrow> int \<Rightarrow> int \<Rightarrow> error + int" where
  "get_cell_index m row col =
     (if \<not> (row \<ge> 0 \<and> row < n_rows m) then Inl AssertionError
      else if \<not> (col \<ge> 0 \<and> col < n_cols m) then Inl AssertionError
      else Inr (row * n_cols m + col))"

fun neighbour :: "int \<times> int \<Rightarrow> direction \<Rightarrow> int \<times> int" where
  "neighbour (row, col) NORTH = (row - 1, col)"
| "neighbour (row, col) SOUTH = (row + 1, col)"
| "neighbour (row, col) EAST = (row, col + 1)"
| "neighbour (row, col) WEST = (row, col - 1)"

definition get_cell_at :: "maze \<Rightarrow> int \<Rightarrow> int \<Rightarrow> direction \<Rightarrow> error + int \<times> int" where
  "get_cell_at m row col d =
     (if \<not> (row \<ge> 0 \<and> row < n_rows m) then Inl AssertionError
      else if \<not> (col \<ge> 0 \<and> col < n_cols m) then Inl AssertionError
      else Inr (neighbour (row, col) d))"

text \<open>Python's \<open>%\<close> and \<open>//\<close> round towards minus infinity, as \<open>mod\<close> and \<open>div\<close> on \<open>int\<close> do.\<close>

definition get_cell_coords :: "maze \<Rightarrow> int \<Rightarrow> error + int \<times> int" where
  "get_cell_coords m cell_idx =
     (if \<not> (cell_idx \<ge> 0 \<and> cell_idx < n_cols m * n_rows m) then Inl AssertionError
      else Inr (cell_idx div n_rows m, cell_idx mod n_rows m))"

subsection \<open>Carving\<close>

text \<open>The test \<open>not self._visited[self._get_cell_index(r, c)]\<close> of the neighbour count.\<close>

definition not_visited :: "maze \<Rightarrow> int \<Rightarrow> int \<Rightarrow> error + bool" where
  "not_visited m row col =
     (case get_cell_index m row col of
        Inl e \<Rightarrow> Inl e
      | Inr i \<Rightarrow> (case getitem (visited m) i of Inl e \<Rightarrow> Inl e | Inr v \<Rightarrow> Inr (\<not> v)))"

text \<open>One \<open>if guard and not visited[...]: c += 1\<close> statement; \<open>and\<close> is short-circuit.\<close>

definition count_if :: "bool \<Rightarrow> error + bool \<Rightarrow> int \<Rightarrow> error + int" where
  "count_if guard test c =
     (if guard then (case test of Inl e \<Rightarrow> Inl e | Inr b \<Rightarrow> Inr (if b then c + 1 else c))
      else Inr c)"

definition has_non_visited_neighbours :: "maze \<Rightarrow> int \<Rightarrow> int \<Rightarrow> error + int" where
  "has_non_visited_neighbours m row col =
     (case count_if (row > 0) (not_visited m (row - 1) col) 0 of
        Inl e \<Rightarrow> Inl e
      | Inr c1 \<Rightarrow>
     (case count_if (row < n_rows m - 1) (not_visited m (row + 1) col) c1 of
        Inl e \<Rightarrow> Inl e
      | Inr c2 \<Rightarrow>
     (case count_if (col > 0) (not_visited m row (col - 1)) c2 of
        Inl e \<Rightarrow> Inl e
      | Inr c3 \<Rightarrow> count_if (col < n_cols m - 1) (not_visited m row (col + 1)) c3)))"

text \<open>
  \<open>random.shuffle(directions)\<close> is the Fisher-Yates shuffle of the standard library:
  for \<open>i = 3, 2, 1\<close> it draws \<open>j\<close> below \<open>i + 1\<close> and swaps positions \<open>i\<close> and \<open>j\<close>.
  The random source is a stream of naturals \<open>rnd\<close>; the shuffle starting at draw
  \<open>k\<close> uses draws \<open>k\<close>, \<open>k + 1\<close>, \<open>k + 2\<close>.
\<close>

definition swap :: "'a list \<Rightarrow> nat \<Rightarrow> nat \<Rightarrow> 'a list" where
  "swap xs i j = xs[i := xs ! j, j := xs ! i]"

definition shuffle :: "(nat \<Rightarrow> nat) \<Rightarrow> nat \<Rightarrow> direction list" where
  "shuffle rnd k =
     swap (swap (swap [NORTH, SOUTH, EAST, WEST] 3 (rnd k mod 4)) 2 (rnd (k + 1) mod 3))
       1 (rnd (k + 2) mod 2)"

text \<open>
  The body of \<open>for d in directions\<close> in \<open>_carve_path_iter\<close>, on the maze and the
  stack \<open>visiting_nodes\<close> (top of the stack at the end of the list).
\<close>

definition carve_dir ::
  "int \<times> int \<Rightarrow> direction \<Rightarrow> maze \<times> (int \<times> int) list \<Rightarrow> error + maze \<times> (int \<times> int) list" where
  "carve_dir node d s =
     (case s of (m, visiting_nodes) \<Rightarrow>
     (case get_cell_at m (fst node) (snd node) d of
        Inl e \<Rightarrow> Inl e
      | Inr next_node \<Rightarrow>
          if fst next_node < 0 \<or> fst next_node \<ge> n_rows m then Inr s
          else if snd next_node < 0 \<or> snd next_node \<ge> n_cols m then Inr s
          else
            (case get_cell_index m (fst next_node) (snd next_node) of
               Inl e \<Rightarrow> Inl e
             | Inr next_node_idx \<Rightarrow>
            (case getitem (visited m) next_node_idx of
               Inl e \<Rightarrow> Inl e
             | Inr seen \<Rightarrow>
                 if seen then Inr s
                 else
                   (case set_edge_at m (fst node) (snd node) d True of
                      Inl e \<Rightarrow> Inl e
                    | Inr m1 \<Rightarrow>
                   (case setitem (visited m1) next_node_idx True of
                      Inl e \<Rightarrow> Inl e
                    | Inr vis \<Rightarrow> Inr (m1\<lparr>visited := vis\<rparr>, visiting_nodes @ [next_node])))))))"

fun carve_dirs ::
  "int \<times> int \<Rightarrow> direction list \<Rightarrow> maze \<times> (int \<times> int) list \<Rightarrow> error + maze \<times> (int \<times> int) list" where
  "carve_dirs node [] s = Inr s"
| "carve_dirs node (d # ds) s =
     (case carve_dir node d s of Inl e \<Rightarrow> Inl e | Inr s' \<Rightarrow> carve_dirs node ds s')"

text \<open>One iteration of the \<open>while\<close> loop, for a non-empty stack and the shuffled directions.\<close>

definition carve_step ::
  "direction list \<Rightarrow> maze \<times> (int \<times> int) list \<Rightarrow> error + maze \<times> (int \<times> int) list" where
  "carve_step directions s =
     (case s of (m, visiting_nodes) \<Rightarrow>
        let node = last visiting_nodes; popped = butlast visiting_nodes in
        (case has_non_visited_neighbours m (fst node) (snd node) of
           Inl e \<Rightarrow> Inl e
         | Inr c \<Rightarrow>
             carve_dirs node directions (m, if c \<noteq> 0 then popped @ [node] else popped)))"

text \<open>The number of cells not yet marked visited.\<close>

definition unvisited :: "maze \<Rightarrow> nat" where
  "unvisited m = length (filter Not (visited m))"


subsection \<open>Termination of the carving loop\<close>

text \<open>A direction is fresh at a node when the neighbour there is inside the grid and not yet visited.\<close>

definition fresh :: "maze \<Rightarrow> int \<times> int \<Rightarrow> direction \<Rightarrow> bool" where
  "fresh m node d =
     (let nx = neighbour node d in
      0 \<le> fst nx \<and> fst nx < n_rows m \<and> 0 \<le> snd nx \<and> snd nx < n_cols m \<and>
      getitem (visited m) (fst nx * n_cols m + snd nx) = Inr False)"

lemma filter_Not_update:
  "i < length xs \<Longrightarrow> \<not> xs ! i \<Longrightarrow> Suc (length (filter Not (xs[i := True]))) = length (filter Not xs)"
proof (induction xs arbitrary: i)
  case Nil then show ?case by simp
next
  case (Cons x xs)
  then show ?case by (cases i) auto
qed

lemma not_visited_True:
  "(not_visited m r c = Inr True) =
     (0 \<le> r \<and> r < n_rows m \<and> 0 \<le> c \<and> c < n_cols m \<and> getitem (visited m) (r * n_cols m + c) = Inr False)"
  by (auto simp: not_visited_def get_cell_index_def split: if_splits sum.splits)

lemma count_if_val:
  "count_if g t c = Inr c' \<Longrightarrow> c' = c + (if g \<and> t = Inr True then 1 else 0)"
  by (auto simp: count_if_def split: if_splits sum.splits)

lemma has_non_visited_val:
  assumes "has_non_visited_neighbours m r c = Inr k"
  shows "k = (if r > 0 \<and> not_visited m (r - 1) c = Inr True then 1 else 0)
           + (if r < n_rows m - 1 \<and> not_visited m (r + 1) c = Inr True then 1 else 0)
           + (if c > 0 \<and> not_visited m r (c - 1) = Inr True then 1 else 0)
           + (if c < n_cols m - 1 \<and> not_visited m r (c + 1) = Inr True then 1 else 0)"
proof -
  from assms obtain c1 where
    1: "count_if (r > 0) (not_visited m (r - 1) c) 0 = Inr c1"
    unfolding has_non_visited_neighbours_def by (cases "count_if (r > 0) (not_visited m (r - 1) c) 0") auto
  from assms 1 obtain c2 where
    2: "count_if (r < n_rows m - 1) (not_visited m (r + 1) c) c1 = Inr c2"
    unfolding has_non_visited_neighbours_def
    by (cases "count_if (r < n_rows m - 1) (not_visited m (r + 1) c) c1") auto
  from assms 1 2 obtain c3 where
    3: "count_if (c > 0) (not_visited m r (c - 1)) c2 = Inr c3"
    unfolding has_non_visited_neighbours_def
    by (cases "count_if (c > 0) (not_visited m r (c - 1)) c2") auto
  from assms 1 2 3 have
    4: "count_if (c < n_cols m - 1) (not_visited m r (c + 1)) c3 = Inr k"
    unfolding has_non_visited_neighbours_def by simp
  show ?thesis
    using count_if_val[OF 1] count_if_val[OF 2] count_if_val[OF 3] count_if_val[OF 4]
    by (simp only: add_0)
qed

lemma fresh_dirs:
  "fresh m (r, c) NORTH = (r > 0 \<and> not_visited m (r - 1) c = Inr True)"
  "fresh m (r, c) SOUTH = (r < n_rows m - 1 \<and> not_visited m (r + 1) c = Inr True)"
  "fresh m (r, c) WEST = (c > 0 \<and> not_visited m r (c - 1) = Inr True)"
  "fresh m (r, c) EAST = (c < n_cols m - 1 \<and> not_visited m r (c + 1) = Inr True)"
  by (auto simp: fresh_def not_visited_True)

lemma has_non_visited_fresh:
  assumes "has_non_visited_neighbours m r c = Inr k"
  shows "(k \<noteq> 0) = (\<exists>d. fresh m (r, c) d)"
proof -
  have "(k \<noteq> 0) = (fresh m (r, c) NORTH \<or> fresh m (r, c) SOUTH \<or> fresh m (r, c) WEST \<or> fresh m (r, c) EAST)"
    unfolding fresh_dirs by (subst has_non_visited_val[OF assms]) (simp split: if_splits)
  moreover have "(\<exists>d. fresh m (r, c) d) = (fresh m (r, c) NORTH \<or> fresh m (r, c) SOUTH \<or> fresh m (r, c) WEST \<or> fresh m (r, c) EAST)"
    by (metis direction.exhaust)
  ultimately show ?thesis by simp
qed


fun edge_pos :: "maze \<Rightarrow> int \<times> int \<Rightarrow> direction \<Rightarrow> nat" where
  "edge_pos m (r, c) NORTH = nat (n_cols m * (r - 1) + c)"
| "edge_pos m (r, c) SOUTH = nat (n_cols m * r + c)"
| "edge_pos m (r, c) EAST = nat (n_cols m * r - r + c)"
| "edge_pos m (r, c) WEST = nat (n_cols m * r - r + (c - 1))"

definition cell_pos :: "maze \<Rightarrow> int \<times> int \<Rightarrow> nat" where
  "cell_pos m p = nat (fst p * n_cols m + snd p)"

definition in_grid :: "maze \<Rightarrow> int \<times> int \<Rightarrow> bool" where
  "in_grid m p = (0 \<le> fst p \<and> fst p < n_rows m \<and> 0 \<le> snd p \<and> snd p < n_cols m)"

definition carved :: "maze \<Rightarrow> int \<times> int \<Rightarrow> direction \<Rightarrow> maze" where
  "carved m node d =
     (if d = NORTH \<or> d = SOUTH
      then m\<lparr>horizontal_edges := (horizontal_edges m)[edge_pos m node d := True],
             visited := (visited m)[cell_pos m (neighbour node d) := True]\<rparr>
      else m\<lparr>vertical_edges := (vertical_edges m)[edge_pos m node d := True],
             visited := (visited m)[cell_pos m (neighbour node d) := True]\<rparr>)"

lemma getitem_nonneg:
  "0 \<le> i \<Longrightarrow> getitem xs i = Inr v \<longleftrightarrow> nat i < length xs \<and> xs ! nat i = v"
  by (auto simp: getitem_def index_ok_def norm_index_def)

lemma setitem_nonneg:
  "0 \<le> i \<Longrightarrow> setitem xs i v = Inr ys \<longleftrightarrow> nat i < length xs \<and> ys = xs[nat i := v]"
  by (auto simp: setitem_def index_ok_def norm_index_def)

lemma mult_add_nonneg: "0 \<le> (a::int) \<Longrightarrow> 0 \<le> b \<Longrightarrow> 0 \<le> c \<Longrightarrow> 0 \<le> a * b + c"
  by simp

lemma get_edge_idx_nonneg:
  assumes "get_edge_idx m r c d = Inr i"
  shows "0 \<le> i \<and> i = int (edge_pos m (r, c) d)"
proof (cases d)
  case NORTH
  with assms have "0 \<le> r - 1" "0 \<le> c" "0 \<le> n_cols m" and i: "i = n_cols m * (r - 1) + c"
    by (auto simp: get_north_edge_idx_def split: if_splits)
  then have "0 \<le> n_cols m * (r - 1) + c" by simp
  with i NORTH show ?thesis by simp
next
  case SOUTH
  with assms have "0 \<le> r" "0 \<le> c" "0 \<le> n_cols m" and i: "i = n_cols m * r + c"
    by (auto simp: get_south_edge_idx_def split: if_splits)
  then have "0 \<le> n_cols m * r + c" by simp
  with i SOUTH show ?thesis by simp
next
  case EAST
  with assms have "0 \<le> r" "0 \<le> c" "0 \<le> n_cols m - 1" and i: "i = n_cols m * r - r + c"
    by (auto simp: get_east_edge_idx_def split: if_splits)
  then have "0 \<le> (n_cols m - 1) * r + c" by simp
  then have "0 \<le> n_cols m * r - r + c" by (simp add: algebra_simps)
  with i EAST show ?thesis by simp
next
  case WEST
  with assms have "0 \<le> r" "0 \<le> c - 1" "0 \<le> n_cols m - 1" and i: "i = n_cols m * r - r + (c - 1)"
    by (auto simp: get_west_edge_idx_def split: if_splits)
  then have "0 \<le> (n_cols m - 1) * r + (c - 1)" by simp
  then have "0 \<le> n_cols m * r - r + (c - 1)" by (simp add: algebra_simps)
  with i WEST show ?thesis by simp
qed

lemma set_edge_at_True:
  assumes "set_edge_at m r c d True = Inr m1"
  shows "get_edge_idx m r c d = Inr (int (edge_pos m (r, c) d)) \<and>
         (if d = NORTH \<or> d = SOUTH
          then edge_pos m (r, c) d < length (horizontal_edges m) \<and>
               m1 = m\<lparr>horizontal_edges := (horizontal_edges m)[edge_pos m (r, c) d := True]\<rparr>
          else edge_pos m (r, c) d < length (vertical_edges m) \<and>
               m1 = m\<lparr>vertical_edges := (vertical_edges m)[edge_pos m (r, c) d := True]\<rparr>)"
proof -
  from assms obtain i where i: "get_edge_idx m r c d = Inr i"
    unfolding set_edge_at_def by (cases "get_edge_idx m r c d") auto
  note nn = get_edge_idx_nonneg[OF i]
  show ?thesis
  proof (cases "d = NORTH \<or> d = SOUTH")
    case True
    with assms i obtain h where "setitem (horizontal_edges m) i True = Inr h" "m1 = m\<lparr>horizontal_edges := h\<rparr>"
      unfolding set_edge_at_def by (cases "setitem (horizontal_edges m) i True") auto
    with nn True i show ?thesis by (simp add: setitem_nonneg)
  next
    case False
    with assms i obtain h where "setitem (vertical_edges m) i True = Inr h" "m1 = m\<lparr>vertical_edges := h\<rparr>"
      unfolding set_edge_at_def by (cases "setitem (vertical_edges m) i True") auto
    with nn False i show ?thesis by (simp add: setitem_nonneg)
  qed
qed

lemma fresh_alt:
  "fresh m node d =
     (in_grid m (neighbour node d) \<and> cell_pos m (neighbour node d) < length (visited m) \<and>
      \<not> visited m ! cell_pos m (neighbour node d))"
proof -
  have "0 \<le> fst (neighbour node d) * n_cols m + snd (neighbour node d)" if "in_grid m (neighbour node d)"
    using that by (simp add: in_grid_def)
  then show ?thesis
    by (auto simp: fresh_def Let_def in_grid_def cell_pos_def getitem_nonneg)
qed

definition cell_idx :: "maze \<Rightarrow> int \<times> int \<Rightarrow> int" where
  "cell_idx m p = fst p * n_cols m + snd p"

lemma cell_idx_pos: "in_grid m p \<Longrightarrow> cell_idx m p = int (cell_pos m p)"
  by (simp add: in_grid_def cell_pos_def cell_idx_def)

lemma carve_dir_eq:
  "carve_dir node d (m, st) =
     (if \<not> in_grid m node then Inl AssertionError
      else if \<not> in_grid m (neighbour node d) then Inr (m, st)
      else (case getitem (visited m) (cell_idx m (neighbour node d)) of
              Inl e \<Rightarrow> Inl e
            | Inr seen \<Rightarrow>
                if seen then Inr (m, st)
                else (case set_edge_at m (fst node) (snd node) d True of
                        Inl e \<Rightarrow> Inl e
                      | Inr m1 \<Rightarrow>
                     (case setitem (visited m1) (cell_idx m (neighbour node d)) True of
                        Inl e \<Rightarrow> Inl e
                      | Inr vis \<Rightarrow> Inr (m1\<lparr>visited := vis\<rparr>, st @ [neighbour node d])))))"
  unfolding carve_dir_def cell_idx_def
  by (auto simp: get_cell_at_def get_cell_index_def in_grid_def)

lemma carve_dir_cases:
  assumes "carve_dir node d (m, st) = Inr s'"
  shows "in_grid m node \<and>
         (if fresh m node d
          then s' = (carved m node d, st @ [neighbour node d]) \<and>
               get_edge_idx m (fst node) (snd node) d = Inr (int (edge_pos m node d)) \<and>
               (if d = NORTH \<or> d = SOUTH then edge_pos m node d < length (horizontal_edges m)
                else edge_pos m node d < length (vertical_edges m))
          else s' = (m, st))"
proof -
  let ?nx = "neighbour node d"
  from assms have ig: "in_grid m node"
    by (simp add: carve_dir_eq split: if_splits)
  show ?thesis
  proof (cases "in_grid m ?nx")
    case False
    then have "\<not> fresh m node d" by (simp add: fresh_alt)
    moreover from False assms ig have "s' = (m, st)"
      by (simp add: carve_dir_eq)
    ultimately show ?thesis using ig by simp
  next
    case True
    note ci = cell_idx_pos[OF True]
    from assms ig True obtain seen where seen: "getitem (visited m) (cell_idx m ?nx) = Inr seen"
      by (cases "getitem (visited m) (cell_idx m ?nx)") (auto simp: carve_dir_eq)
    then have len: "cell_pos m ?nx < length (visited m)" and sv: "seen = visited m ! cell_pos m ?nx"
      by (auto simp: getitem_nonneg ci)
    show ?thesis
    proof (cases seen)
      case True
      with assms ig \<open>in_grid m ?nx\<close> seen have "s' = (m, st)"
        by (simp add: carve_dir_eq)
      moreover from True sv have "\<not> fresh m node d" by (simp add: fresh_alt)
      ultimately show ?thesis using ig by simp
    next
      case False
      with sv len \<open>in_grid m ?nx\<close> have fr: "fresh m node d" by (simp add: fresh_alt)
      from assms ig \<open>in_grid m ?nx\<close> seen False obtain m1 where
        m1: "set_edge_at m (fst node) (snd node) d True = Inr m1"
        by (cases "set_edge_at m (fst node) (snd node) d True") (auto simp: carve_dir_eq)
      note se = set_edge_at_True[OF m1, unfolded prod.collapse]
      from se have vm1: "visited m1 = visited m" by (auto split: if_splits)
      from assms ig \<open>in_grid m ?nx\<close> seen False m1 obtain vis where
        vis: "setitem (visited m1) (cell_idx m ?nx) True = Inr vis"
        and s': "s' = (m1\<lparr>visited := vis\<rparr>, st @ [?nx])"
        by (cases "setitem (visited m1) (cell_idx m ?nx) True") (auto simp: carve_dir_eq)
      from vis vm1 have "vis = (visited m)[cell_pos m ?nx := True]"
        by (simp add: setitem_nonneg ci)
      with s' se have "s' = (carved m node d, st @ [?nx])"
        unfolding carved_def by (auto split: if_splits)
      with fr ig se show ?thesis by (auto split: if_splits)
    qed
  qed
qed


lemma carved_unvisited:
  "fresh m node d \<Longrightarrow> Suc (unvisited (carved m node d)) = unvisited m"
  by (simp add: fresh_alt unvisited_def carved_def filter_Not_update)

lemma carve_dirs_unvisited:
  "carve_dirs node ds (m, st) = Inr (m', st') \<Longrightarrow>
     unvisited m' \<le> unvisited m \<and>
     (unvisited m' = unvisited m \<longrightarrow> m' = m \<and> st' = st \<and> (\<forall>d \<in> set ds. \<not> fresh m node d))"
proof (induction ds arbitrary: m st)
  case Nil
  then show ?case by simp
next
  case (Cons d ds)
  from Cons.prems obtain s1 where s1: "carve_dir node d (m, st) = Inr s1"
    and rest: "carve_dirs node ds s1 = Inr (m', st')"
    by (cases "carve_dir node d (m, st)") auto
  note cd = carve_dir_cases[OF s1]
  show ?case
  proof (cases "fresh m node d")
    case True
    with cd have "s1 = (carved m node d, st @ [neighbour node d])" by simp
    with rest have "unvisited m' \<le> unvisited (carved m node d)"
      using Cons.IH by blast
    with carved_unvisited[OF True] show ?thesis by simp
  next
    case False
    with cd have "s1 = (m, st)" by simp
    with rest Cons.IH[of m st] False show ?thesis by auto
  qed
qed

lemma carve_step_decreases:
  assumes "carve_step ds (m, st) = Inr (m', st')" and "st \<noteq> []" and "set ds = UNIV"
  shows "unvisited m' < unvisited m \<or> (unvisited m' = unvisited m \<and> length st' < length st)"
proof -
  let ?node = "last st"
  from assms(1) obtain k where k: "has_non_visited_neighbours m (fst ?node) (snd ?node) = Inr k"
    and cd: "carve_dirs ?node ds (m, if k \<noteq> 0 then butlast st @ [?node] else butlast st) = Inr (m', st')"
    by (cases "has_non_visited_neighbours m (fst ?node) (snd ?node)") (auto simp: carve_step_def Let_def)
  note hf = has_non_visited_fresh[OF k, unfolded prod.collapse]
  note cu = carve_dirs_unvisited[OF cd]
  show ?thesis
  proof (cases "unvisited m' = unvisited m")
    case False
    with cu show ?thesis by simp
  next
    case True
    with cu assms(3) have nf: "\<forall>d. \<not> fresh m ?node d"
      and st': "st' = (if k \<noteq> 0 then butlast st @ [?node] else butlast st)" by auto
    from nf hf have "k = 0" by simp
    with st' assms(2) True show ?thesis by simp
  qed
qed

lemma mset_swap_list: "i < length xs \<Longrightarrow> j < length xs \<Longrightarrow> mset (swap xs i j) = mset xs"
  unfolding swap_def by (simp add: mset_swap)

lemma length_swap [simp]: "length (swap xs i j) = length xs"
  by (simp add: swap_def)

lemma mset_shuffle: "mset (shuffle rnd k) = mset [NORTH, SOUTH, EAST, WEST]"
  unfolding shuffle_def by (simp add: mset_swap_list)

lemma set_shuffle: "set (shuffle rnd k) = UNIV"
proof -
  have "set (shuffle rnd k) = set [NORTH, SOUTH, EAST, WEST]"
    using mset_shuffle[of rnd k] by (rule mset_eq_setD)
  also have "\<dots> = UNIV"
    using direction.exhaust by auto
  finally show ?thesis .
qed

function carve_loop :: "(nat \<Rightarrow> nat) \<Rightarrow> nat \<Rightarrow> maze \<times> (int \<times> int) list \<Rightarrow> error + maze" where
  "carve_loop rnd k s =
     (if snd s = [] then Inr (fst s)
      else (case carve_step (shuffle rnd k) s of
              Inl e \<Rightarrow> Inl e
            | Inr s' \<Rightarrow> carve_loop rnd (k + 3) s'))"
  by pat_completeness auto
termination
proof (relation "inv_image (less_than <*lex*> less_than) (\<lambda>(rnd, k, s). (unvisited (fst s), length (snd s)))")
  show "wf (inv_image (less_than <*lex*> less_than) (\<lambda>(rnd, k, s). (unvisited (fst s), length (snd s))))"
    by (intro wf_inv_image wf_lex_prod wf_less_than)
next
  fix rnd :: "nat \<Rightarrow> nat" and k :: nat and s s' :: "maze \<times> (int \<times> int) list"
  assume ne: "snd s \<noteq> []" and st: "carve_step (shuffle rnd k) s = Inr s'"
  from carve_step_decreases[of "shuffle rnd k" "fst s" "snd s" "fst s'" "snd s'"] ne st
  have "unvisited (fst s') < unvisited (fst s) \<or>
        (unvisited (fst s') = unvisited (fst s) \<and> length (snd s') < length (snd s))"
    by (simp add: set_shuffle)
  then show "((rnd, k + 3, s'), (rnd, k, s)) \<in>
        inv_image (less_than <*lex*> less_than) (\<lambda>(rnd, k, s). (unvisited (fst s), length (snd s)))"
    by auto
qed

definition carve_path_iter :: "(nat \<Rightarrow> nat) \<Rightarrow> maze \<Rightarrow> int \<times> int \<Rightarrow> error + maze" where
  "carve_path_iter rnd m node =
     (case get_cell_index m (fst node) (snd node) of
        Inl e \<Rightarrow> Inl e
      | Inr i \<Rightarrow>
     (case setitem (visited m) i True of
        Inl e \<Rightarrow> Inl e
      | Inr vis \<Rightarrow> carve_loop rnd 0 (m\<lparr>visited := vis\<rparr>, [node])))"

definition carve_paths :: "(nat \<Rightarrow> nat) \<Rightarrow> maze \<Rightarrow> error + maze" where
  "carve_paths rnd m = carve_path_iter rnd m (start_pos m)"

text \<open>
  \<open>Maze.__init__\<close>: the field assignments (\<open>range\<close> of a negative number is empty),
  then \<open>_carve_paths\<close>. The random source is a parameter.
\<close>

definition init_maze :: "int \<Rightarrow> int \<Rightarrow> int \<times> int \<Rightarrow> (int \<times> int) option \<Rightarrow> maze" where
  "init_maze nr nc sp gp =
     \<lparr>n_rows = nr, n_cols = nc, start_pos = sp,
      goal_pos = (case gp of Some g \<Rightarrow> g | None \<Rightarrow> (nr - 1, nc - 1)),
      horizontal_edges = replicate (nat ((nr - 1) * nc)) False,
      vertical_edges = replicate (nat ((nc - 1) * nr)) False,
      visited = replicate (nat (nr * nc)) False\<rparr>"

definition create :: "int \<Rightarrow> int \<Rightarrow> int \<times> int \<Rightarrow> (int \<times> int) option \<Rightarrow> (nat \<Rightarrow> nat) \<Rightarrow> error + maze" where
  "create nr nc sp gp rnd = carve_paths rnd (init_maze nr nc sp gp)"

definition move :: "maze \<Rightarrow> int \<times> int \<Rightarrow> direction \<Rightarrow> error + bool \<times> (int \<times> int)" where
  "move m pos d =
     (case get_edge_at m (fst pos) (snd pos) d of
        Inl e \<Rightarrow> Inl e
      | Inr passage \<Rightarrow>
          if \<not> passage then Inr (False, pos)
          else (case get_cell_at m (fst pos) (snd pos) d of
                  Inl e \<Rightarrow> Inl e
                | Inr next_cell \<Rightarrow> Inr (True, next_cell)))"

subsection \<open>Rendering\<close>

text \<open>
  A \<open>for x in xs\<close> loop whose body may raise, and \<open>range(n)\<close> (empty for \<open>n \<le> 0\<close>).
\<close>

fun for_loop :: "'i list \<Rightarrow> ('i \<Rightarrow> 's \<Rightarrow> error + 's) \<Rightarrow> 's \<Rightarrow> error + 's" where
  "for_loop [] body s = Inr s"
| "for_loop (i # is) body s =
     (case body i s of Inl e \<Rightarrow> Inl e | Inr s' \<Rightarrow> for_loop is body s')"

definition range_py :: "int \<Rightarrow> int list" where
  "range_py n = map int [0..<nat n]"

text \<open>
  \<open>ret[r][c] = v\<close> on a two-dimensional numpy array, as a list of rows: \<open>ret[r]\<close> is a
  view of row \<open>r\<close>, so the assignment changes \<open>ret\<close>.
\<close>

definition mat_set :: "int list list \<Rightarrow> int \<Rightarrow> int \<Rightarrow> int \<Rightarrow> error + int list list" where
  "mat_set ret r c v =
     (case getitem ret r of
        Inl e \<Rightarrow> Inl e
      | Inr row \<Rightarrow>
     (case setitem row c v of
        Inl e \<Rightarrow> Inl e
      | Inr row' \<Rightarrow> setitem ret r row'))"

text \<open>\<open>1 * flag\<close> for a Python boolean.\<close>

definition int_of_bool :: "bool \<Rightarrow> int" where
  "int_of_bool b = (if b then 1 else 0)"

text \<open>The body of the inner loop of \<open>make_binary_map\<close> on a cell row (\<open>r % 2 == 0\<close>).\<close>

definition cell_row_body :: "maze \<Rightarrow> int \<Rightarrow> int \<Rightarrow> int list list \<Rightarrow> error + int list list" where
  "cell_row_body m r c_idx ret =
     (let r_idx = r div 2; edge_start_idx = n_cols m * r_idx - r_idx in
      case (if c_idx > 0 then
              (case getitem (vertical_edges m) (edge_start_idx + c_idx - 1) of
                 Inl e \<Rightarrow> Inl e
               | Inr b \<Rightarrow> mat_set ret r (2 * c_idx - 1) (int_of_bool b))
            else Inr ret) of
        Inl e \<Rightarrow> Inl e
      | Inr ret1 \<Rightarrow> mat_set ret1 (2 * r_idx) (2 * c_idx) 1)"

text \<open>The body of the inner loop on an edge row.\<close>

definition edge_row_body :: "maze \<Rightarrow> int \<Rightarrow> int \<Rightarrow> int list list \<Rightarrow> error + int list list" where
  "edge_row_body m r c_idx ret =
     (let r_idx = (r + 1) div 2; edge_start_idx = n_cols m * (r_idx - 1) in
      case getitem (horizontal_edges m) (edge_start_idx + c_idx) of
        Inl e \<Rightarrow> Inl e
      | Inr b \<Rightarrow> mat_set ret r (2 * c_idx) (int_of_bool b))"

definition map_row_body :: "maze \<Rightarrow> int \<Rightarrow> int list list \<Rightarrow> error + int list list" where
  "map_row_body m r ret =
     (if r mod 2 = 0 then for_loop (range_py (n_cols m)) (cell_row_body m r) ret
      else if (r + 1) div 2 > 0 then for_loop (range_py (n_cols m)) (edge_row_body m r) ret
      else Inr ret)"

definition make_binary_map :: "maze \<Rightarrow> error + int list list" where
  "make_binary_map m =
     (let rows = n_rows m + (n_rows m - 1); cols = n_cols m + (n_cols m - 1) in
      if rows < 0 \<or> cols < 0 then Inl ValueError
      else for_loop (range_py rows) (map_row_body m) (replicate (nat rows) (replicate (nat cols) 0)))"

text \<open>
  \<open>__repr__\<close>. The loop bodies append to the string \<open>ret\<close>; \<open>"-" * k\<close> is empty for
  \<open>k \<le> 0\<close>.
\<close>

definition border :: "maze \<Rightarrow> string" where
  "border m = ''+'' @ replicate (nat (n_cols m * 2 - 1)) CHR ''-'' @ ''+''"

definition top_edge_body :: "maze \<Rightarrow> int \<Rightarrow> int \<Rightarrow> string \<Rightarrow> error + string" where
  "top_edge_body m r_idx e_idx ret =
     (let edge_start_idx = n_cols m * (r_idx - 1) in
      case getitem (horizontal_edges m) (edge_start_idx + e_idx) of
        Inl e \<Rightarrow> Inl e
      | Inr b \<Rightarrow>
          let ret1 = ret @ (if b then '' '' else ''-'') in
          Inr (if e_idx < n_cols m - 1 then ret1 @ ''+'' else ret1))"

definition cell_body :: "maze \<Rightarrow> int \<Rightarrow> int \<Rightarrow> string \<Rightarrow> error + string" where
  "cell_body m r_idx c_idx ret =
     (let edge_start_idx = n_cols m * r_idx - r_idx in
      case (if c_idx > 0 then
              (case getitem (vertical_edges m) (edge_start_idx + c_idx - 1) of
                 Inl e \<Rightarrow> Inl e
               | Inr b \<Rightarrow> Inr (ret @ (if b then '' '' else ''|'')))
            else Inr ret) of
        Inl e \<Rightarrow> Inl e
      | Inr ret1 \<Rightarrow>
          Inr (if start_pos m = (r_idx, c_idx) then ret1 @ ''S''
               else if goal_pos m = (r_idx, c_idx) then ret1 @ ''G''
               else ret1 @ '' ''))"

definition repr_row_body :: "maze \<Rightarrow> int \<Rightarrow> string \<Rightarrow> error + string" where
  "repr_row_body m r_idx ret =
     (case (if r_idx > 0 then
              (case for_loop (range_py (n_cols m)) (top_edge_body m r_idx) (ret @ ''|'') of
                 Inl e \<Rightarrow> Inl e
               | Inr ret1 \<Rightarrow> Inr (ret1 @ [CHR ''|'', CHR 0x0A]))
            else Inr ret) of
        Inl e \<Rightarrow> Inl e
      | Inr ret2 \<Rightarrow>
     (case for_loop (range_py (n_cols m)) (cell_body m r_idx) (ret2 @ ''|'') of
        Inl e \<Rightarrow> Inl e
      | Inr ret3 \<Rightarrow> Inr (ret3 @ [CHR ''|'', CHR 0x0A])))"

definition repr :: "maze \<Rightarrow> error + string" where
  "repr m =
     (case for_loop (range_py (n_rows m)) (repr_row_body m) (border m @ [CHR 0x0A]) of
        Inl e \<Rightarrow> Inl e
      | Inr ret \<Rightarrow> Inr (ret @ border m))"

section \<open>The carving invariant\<close>

text \<open>A maze whose arrays have the lengths allocated by the constructor.\<close>

definition wf_maze :: "maze \<Rightarrow> bool" where
  "wf_maze m =
     (1 \<le> n_rows m \<and> 1 \<le> n_cols m \<and>
      length (horizontal_edges m) = nat ((n_rows m - 1) * n_cols m) \<and>
      length (vertical_edges m) = nat ((n_cols m - 1) * n_rows m) \<and>
      length (visited m) = nat (n_rows m * n_cols m))"

definition is_visited :: "maze \<Rightarrow> int \<times> int \<Rightarrow> bool" where
  "is_visited m p = visited m ! cell_pos m p"

definition passages :: "maze \<Rightarrow> nat" where
  "passages m = length (filter id (horizontal_edges m)) + length (filter id (vertical_edges m))"

lemma cell_pos_less:
  assumes "wf_maze m" "in_grid m p"
  shows "cell_pos m p < length (visited m)"
proof -
  obtain r c where p: "p = (r, c)" by (cases p)
  from assms have b: "0 \<le> r" "r + 1 \<le> n_rows m" "0 \<le> c" "c < n_cols m" "0 \<le> n_cols m"
    by (auto simp: in_grid_def wf_maze_def p)
  have "(r + 1) * n_cols m \<le> n_rows m * n_cols m"
    by (rule mult_right_mono) (use b in auto)
  then have "r * n_cols m + c < n_rows m * n_cols m"
    using b by (simp add: algebra_simps)
  moreover have "0 \<le> r * n_cols m + c" using b by simp
  ultimately show ?thesis using assms(1)
    by (simp add: cell_pos_def p wf_maze_def)
qed

lemma fresh_wf:
  "wf_maze m \<Longrightarrow> fresh m node d = (in_grid m (neighbour node d) \<and> \<not> is_visited m (neighbour node d))"
  by (auto simp: fresh_alt is_visited_def cell_pos_less)

text \<open>The two cells an edge joins, as positions in the visited array.\<close>

definition h_ends :: "maze \<Rightarrow> nat \<Rightarrow> nat \<times> nat" where
  "h_ends m i = (i, i + nat (n_cols m))"

definition v_ends :: "maze \<Rightarrow> nat \<Rightarrow> nat \<times> nat" where
  "v_ends m i = (i + i div nat (n_cols m - 1), i + i div nat (n_cols m - 1) + 1)"

lemma div_row: "0 \<le> (r::int) \<Longrightarrow> 0 \<le> c \<Longrightarrow> c < k \<Longrightarrow> nat (r * k + c) div nat k = nat r"
proof -
  assume a: "0 \<le> r" "0 \<le> c" "c < k"
  then have "nat (r * k + c) = nat r * nat k + nat c"
    by (simp add: nat_add_distrib nat_mult_distrib)
  moreover have "nat c < nat k" using a by simp
  ultimately show ?thesis by simp
qed

lemma ends_NORTH:
  assumes "in_grid m (r, c)" "in_grid m (r - 1, c)"
  shows "h_ends m (edge_pos m (r, c) NORTH) = (cell_pos m (r - 1, c), cell_pos m (r, c))"
proof -
  from assms have b: "0 \<le> r - 1" "0 \<le> c" "0 \<le> n_cols m" by (auto simp: in_grid_def)
  then have nn: "0 \<le> (r - 1) * n_cols m + c" by simp
  have "r * n_cols m + c = ((r - 1) * n_cols m + c) + n_cols m" by (simp add: algebra_simps)
  then have "nat (r * n_cols m + c) = nat ((r - 1) * n_cols m + c) + nat (n_cols m)"
    using nn b by (simp add: nat_add_distrib)
  then show ?thesis by (simp add: h_ends_def cell_pos_def mult.commute)
qed

lemma ends_SOUTH:
  assumes "in_grid m (r, c)" "in_grid m (r + 1, c)"
  shows "h_ends m (edge_pos m (r, c) SOUTH) = (cell_pos m (r, c), cell_pos m (r + 1, c))"
proof -
  from assms have b: "0 \<le> r" "0 \<le> c" "0 \<le> n_cols m" by (auto simp: in_grid_def)
  then have nn: "0 \<le> r * n_cols m + c" by simp
  have "(r + 1) * n_cols m + c = (r * n_cols m + c) + n_cols m" by (simp add: algebra_simps)
  then have "nat ((r + 1) * n_cols m + c) = nat (r * n_cols m + c) + nat (n_cols m)"
    using nn b by (simp add: nat_add_distrib)
  then show ?thesis by (simp add: h_ends_def cell_pos_def mult.commute)
qed

lemma ends_EAST:
  assumes "in_grid m (r, c)" "in_grid m (r, c + 1)"
  shows "v_ends m (edge_pos m (r, c) EAST) = (cell_pos m (r, c), cell_pos m (r, c + 1))"
proof -
  from assms have b: "0 \<le> r" "0 \<le> c" "c < n_cols m - 1" by (auto simp: in_grid_def)
  have e: "n_cols m * r - r + c = r * (n_cols m - 1) + c" by (simp add: algebra_simps)
  have d: "nat (r * (n_cols m - 1) + c) div nat (n_cols m - 1) = nat r"
    using b by (intro div_row) auto
  have nn: "0 \<le> r * (n_cols m - 1) + c" using b by simp
  have "r * n_cols m + c = (r * (n_cols m - 1) + c) + r" by (simp add: algebra_simps)
  then have 1: "nat (r * n_cols m + c) = nat (r * (n_cols m - 1) + c) + nat r"
    using nn b by (simp add: nat_add_distrib)
  have "0 \<le> r * n_cols m + c" using b by simp
  then have 2: "nat (r * n_cols m + (c + 1)) = nat (r * n_cols m + c) + 1"
    by (simp add: nat_add_distrib add.assoc[symmetric])
  show ?thesis unfolding v_ends_def edge_pos.simps e d cell_pos_def fst_conv snd_conv 2 1 by simp
qed

lemma ends_WEST:
  assumes "in_grid m (r, c)" "in_grid m (r, c - 1)"
  shows "v_ends m (edge_pos m (r, c) WEST) = (cell_pos m (r, c - 1), cell_pos m (r, c))"
proof -
  have "edge_pos m (r, c) WEST = edge_pos m (r, c - 1) EAST" by simp
  moreover have "v_ends m (edge_pos m (r, c - 1) EAST) = (cell_pos m (r, c - 1), cell_pos m (r, c - 1 + 1))"
    using assms by (intro ends_EAST) auto
  ultimately show ?thesis by simp
qed


lemma ends_dir:
  assumes "in_grid m node" "in_grid m (neighbour node d)"
  shows "(if d = NORTH \<or> d = SOUTH then h_ends m (edge_pos m node d) else v_ends m (edge_pos m node d))
         \<in> {(cell_pos m node, cell_pos m (neighbour node d)), (cell_pos m (neighbour node d), cell_pos m node)}"
proof -
  obtain r c where node: "node = (r, c)" by (cases node)
  show ?thesis
  proof (cases d)
    case NORTH
    with assms show ?thesis unfolding node using ends_NORTH[of m r c] by (simp del: edge_pos.simps)
  next
    case SOUTH
    with assms show ?thesis unfolding node using ends_SOUTH[of m r c] by (simp del: edge_pos.simps)
  next
    case EAST
    with assms show ?thesis unfolding node using ends_EAST[of m r c] by (simp del: edge_pos.simps)
  next
    case WEST
    with assms show ?thesis unfolding node using ends_WEST[of m r c] by (simp del: edge_pos.simps)
  qed
qed

lemma cell_pos_inj:
  assumes "in_grid m p" "in_grid m q" "cell_pos m p = cell_pos m q"
  shows "p = q"
proof -
  obtain r c where p: "p = (r, c)" by (cases p)
  obtain r' c' where q: "q = (r', c')" by (cases q)
  from assms have b: "0 \<le> r" "0 \<le> c" "c < n_cols m" "0 \<le> r'" "0 \<le> c'" "c' < n_cols m"
    by (auto simp: in_grid_def p q)
  then have "0 \<le> r * n_cols m + c" "0 \<le> r' * n_cols m + c'" by simp_all
  with assms(3) have eq: "r * n_cols m + c = r' * n_cols m + c'"
    by (simp add: cell_pos_def p q)
  have "(r * n_cols m + c) div n_cols m = r" using b by (simp add: div_pos_pos_trivial)
  moreover have "(r' * n_cols m + c') div n_cols m = r'" using b by (simp add: div_pos_pos_trivial)
  ultimately have "r = r'" using eq by simp
  with eq show ?thesis by (simp add: p q)
qed

lemma filter_id_update:
  "i < length xs \<Longrightarrow> \<not> xs ! i \<Longrightarrow> length (filter id (xs[i := True])) = Suc (length (filter id xs))"
proof (induction xs arbitrary: i)
  case Nil then show ?case by simp
next
  case (Cons x xs)
  then show ?case by (cases i) auto
qed

lemma nth_update_True: "j < length xs \<Longrightarrow> xs[j := True] ! k = (k = j \<or> xs ! k)"
  by (cases "k = j") auto

lemma nth_update_True': "i < length xs \<Longrightarrow> xs[e := True] ! i = (i = e \<or> xs ! i)"
  by (cases "i = e") auto

definition edges_closed :: "maze \<Rightarrow> bool" where
  "edges_closed m =
     ((\<forall>i < length (horizontal_edges m). horizontal_edges m ! i \<longrightarrow>
          visited m ! fst (h_ends m i) \<and> visited m ! snd (h_ends m i)) \<and>
      (\<forall>i < length (vertical_edges m). vertical_edges m ! i \<longrightarrow>
          visited m ! fst (v_ends m i) \<and> visited m ! snd (v_ends m i)))"

inductive reachable :: "maze \<Rightarrow> int \<times> int \<Rightarrow> bool" for m :: maze where
  start: "reachable m (start_pos m)"
| step: "reachable m p \<Longrightarrow> move m p d = Inr (True, q) \<Longrightarrow> reachable m q"

definition carve_inv :: "maze \<Rightarrow> (int \<times> int) list \<Rightarrow> bool" where
  "carve_inv m st =
     (wf_maze m \<and> in_grid m (start_pos m) \<and> is_visited m (start_pos m) \<and>
      (\<forall>p \<in> set st. in_grid m p \<and> is_visited m p) \<and>
      (\<forall>p d. in_grid m p \<longrightarrow> is_visited m p \<longrightarrow> fresh m p d \<longrightarrow> p \<in> set st) \<and>
      Suc (passages m) = length (filter id (visited m)) \<and>
      (\<forall>p. in_grid m p \<longrightarrow> is_visited m p \<longrightarrow> reachable m p) \<and>
      edges_closed m)"

lemma carved_fields [simp]:
  "n_rows (carved m node d) = n_rows m"
  "n_cols (carved m node d) = n_cols m"
  "start_pos (carved m node d) = start_pos m"
  "goal_pos (carved m node d) = goal_pos m"
  "visited (carved m node d) = (visited m)[cell_pos m (neighbour node d) := True]"
  "length (horizontal_edges (carved m node d)) = length (horizontal_edges m)"
  "length (vertical_edges (carved m node d)) = length (vertical_edges m)"
  by (simp_all add: carved_def)

lemma carved_edges:
  "horizontal_edges (carved m node d) =
     (if d = NORTH \<or> d = SOUTH then (horizontal_edges m)[edge_pos m node d := True] else horizontal_edges m)"
  "vertical_edges (carved m node d) =
     (if d = NORTH \<or> d = SOUTH then vertical_edges m else (vertical_edges m)[edge_pos m node d := True])"
  by (simp_all add: carved_def)

lemma carved_simps [simp]:
  "wf_maze (carved m node d) = wf_maze m"
  "in_grid (carved m node d) p = in_grid m p"
  "cell_pos (carved m node d) p = cell_pos m p"
  "h_ends (carved m node d) i = h_ends m i"
  "v_ends (carved m node d) i = v_ends m i"
  by (simp_all add: wf_maze_def in_grid_def cell_pos_def h_ends_def v_ends_def)

lemma carved_is_visited:
  assumes "wf_maze m" "in_grid m (neighbour node d)"
  shows "is_visited (carved m node d) p = (cell_pos m p = cell_pos m (neighbour node d) \<or> is_visited m p)"
  using cell_pos_less[OF assms] by (simp add: is_visited_def nth_update_True)


lemma carved_edge_free:
  assumes ec: "edges_closed m" and wf: "wf_maze m" and nd: "in_grid m node"
    and fr: "fresh m node d"
  shows "if d = NORTH \<or> d = SOUTH
         then edge_pos m node d < length (horizontal_edges m) \<longrightarrow> \<not> horizontal_edges m ! edge_pos m node d
         else edge_pos m node d < length (vertical_edges m) \<longrightarrow> \<not> vertical_edges m ! edge_pos m node d"
proof -
  from fr wf have ng: "in_grid m (neighbour node d)" and nv: "\<not> visited m ! cell_pos m (neighbour node d)"
    by (simp_all add: fresh_wf is_visited_def)
  note en = ends_dir[OF nd ng]
  show ?thesis
  proof (cases "d = NORTH \<or> d = SOUTH")
    case True
    with en nv have "\<not> (visited m ! fst (h_ends m (edge_pos m node d)) \<and> visited m ! snd (h_ends m (edge_pos m node d)))"
      by auto
    with ec True show ?thesis unfolding edges_closed_def by auto
  next
    case False
    with en nv have "\<not> (visited m ! fst (v_ends m (edge_pos m node d)) \<and> visited m ! snd (v_ends m (edge_pos m node d)))"
      by auto
    with ec False show ?thesis unfolding edges_closed_def by auto
  qed
qed

lemma carved_passages:
  assumes "edges_closed m" "wf_maze m" "in_grid m node" "fresh m node d"
    and "if d = NORTH \<or> d = SOUTH then edge_pos m node d < length (horizontal_edges m)
         else edge_pos m node d < length (vertical_edges m)"
  shows "passages (carved m node d) = Suc (passages m)"
  using carved_edge_free[OF assms(1-4)] assms(5)
  by (auto simp: passages_def carved_edges filter_id_update split: if_splits)

lemma carved_visited_count:
  assumes "wf_maze m" "fresh m node d"
  shows "length (filter id (visited (carved m node d))) = Suc (length (filter id (visited m)))"
  using assms by (simp add: fresh_alt filter_id_update)

lemma get_edge_idx_carved [simp]:
  "get_edge_idx (carved m node d) r c d' = get_edge_idx m r c d'"
  by (cases d') (simp_all add: get_north_edge_idx_def get_south_edge_idx_def
      get_east_edge_idx_def get_west_edge_idx_def)

lemma get_cell_at_carved [simp]:
  "get_cell_at (carved m node d) r c d' = get_cell_at m r c d'"
  by (simp add: get_cell_at_def)

lemma get_edge_at_True:
  "get_edge_at m r c d = Inr True \<longleftrightarrow>
     (\<exists>i. get_edge_idx m r c d = Inr (int i) \<and>
        (if d = NORTH \<or> d = SOUTH then i < length (horizontal_edges m) \<and> horizontal_edges m ! i
         else i < length (vertical_edges m) \<and> vertical_edges m ! i))"
proof (cases "get_edge_idx m r c d")
  case (Inl e)
  then show ?thesis by (simp add: get_edge_at_def)
next
  case (Inr i)
  from get_edge_idx_nonneg[OF Inr] have nn: "0 \<le> i" by simp
  then have "\<And>j. (i = int j) = (j = nat i)" by auto
  with Inr nn show ?thesis by (simp add: get_edge_at_def getitem_nonneg)
qed

lemma get_edge_at_carved_mono:
  assumes "get_edge_at m r c d' = Inr True"
  shows "get_edge_at (carved m node d) r c d' = Inr True"
proof -
  from assms obtain i where i: "get_edge_idx m r c d' = Inr (int i)"
    and v: "if d' = NORTH \<or> d' = SOUTH then i < length (horizontal_edges m) \<and> horizontal_edges m ! i
            else i < length (vertical_edges m) \<and> vertical_edges m ! i"
    unfolding get_edge_at_True by blast
  from v have "if d' = NORTH \<or> d' = SOUTH
      then i < length (horizontal_edges (carved m node d)) \<and> horizontal_edges (carved m node d) ! i
      else i < length (vertical_edges (carved m node d)) \<and> vertical_edges (carved m node d) ! i"
    by (auto simp: carved_edges nth_update_True' split: if_splits)
  with i show ?thesis unfolding get_edge_at_True by auto
qed

lemma move_True:
  "move m p d = Inr (True, q) \<longleftrightarrow>
     get_edge_at m (fst p) (snd p) d = Inr True \<and> get_cell_at m (fst p) (snd p) d = Inr q"
  by (auto simp: move_def split: sum.splits)

lemma move_carved_mono:
  "move m p d' = Inr (True, q) \<Longrightarrow> move (carved m node d) p d' = Inr (True, q)"
  by (simp add: move_True get_edge_at_carved_mono)

lemma reachable_carved_mono:
  "reachable m q \<Longrightarrow> reachable (carved m node d) q"
proof (induction rule: reachable.induct)
  case start
  have "reachable (carved m node d) (start_pos (carved m node d))" by (rule reachable.start)
  then show ?case by simp
next
  case (step p d' q)
  from step.hyps(2) have "move (carved m node d) p d' = Inr (True, q)" by (rule move_carved_mono)
  with step.IH show ?case by (rule reachable.step)
qed

lemma move_carved_new:
  assumes "in_grid m node"
    and "get_edge_idx m (fst node) (snd node) d = Inr (int (edge_pos m node d))"
    and "if d = NORTH \<or> d = SOUTH then edge_pos m node d < length (horizontal_edges m)
         else edge_pos m node d < length (vertical_edges m)"
  shows "move (carved m node d) node d = Inr (True, neighbour node d)"
proof -
  have "get_edge_at (carved m node d) (fst node) (snd node) d = Inr True"
    unfolding get_edge_at_True using assms(2,3)
    by (auto simp: carved_edges split: if_splits)
  moreover have "get_cell_at m (fst node) (snd node) d = Inr (neighbour node d)"
    using assms(1) by (simp add: get_cell_at_def in_grid_def)
  ultimately show ?thesis by (simp add: move_True)
qed

lemma carved_edges_closed:
  assumes ec: "edges_closed m" and wf: "wf_maze m" and nd: "in_grid m node" and nv: "is_visited m node"
    and fr: "fresh m node d"
  shows "edges_closed (carved m node d)"
proof -
  let ?j = "cell_pos m (neighbour node d)"
  from fr wf have ng: "in_grid m (neighbour node d)" by (simp add: fresh_wf)
  have jl: "?j < length (visited m)" using cell_pos_less[OF wf ng] .
  note en = ends_dir[OF nd ng]
  have new: "(visited m)[?j := True] ! ?j" "(visited m)[?j := True] ! cell_pos m node"
    using jl nv by (simp_all add: nth_update_True is_visited_def)
  have mono: "\<And>k. visited m ! k \<Longrightarrow> (visited m)[?j := True] ! k"
    using jl by (simp add: nth_update_True)
  show ?thesis
    unfolding edges_closed_def
  proof (intro conjI allI impI)
    fix i assume "i < length (horizontal_edges (carved m node d))" "horizontal_edges (carved m node d) ! i"
    then have "(i = edge_pos m node d \<and> (d = NORTH \<or> d = SOUTH)) \<or> (i < length (horizontal_edges m) \<and> horizontal_edges m ! i)"
      by (auto simp: carved_edges nth_update_True' split: if_splits)
    then show "visited (carved m node d) ! fst (h_ends (carved m node d) i)"
      and "visited (carved m node d) ! snd (h_ends (carved m node d) i)"
      using en new ec mono unfolding edges_closed_def by auto
  next
    fix i assume "i < length (vertical_edges (carved m node d))" "vertical_edges (carved m node d) ! i"
    then have "(i = edge_pos m node d \<and> \<not> (d = NORTH \<or> d = SOUTH)) \<or> (i < length (vertical_edges m) \<and> vertical_edges m ! i)"
      by (auto simp: carved_edges nth_update_True' split: if_splits)
    then show "visited (carved m node d) ! fst (v_ends (carved m node d) i)"
      and "visited (carved m node d) ! snd (v_ends (carved m node d) i)"
      using en new ec mono unfolding edges_closed_def by auto
  qed
qed


lemma carved_inv:
  assumes inv: "carve_inv m st" and nd: "in_grid m node" and nv: "is_visited m node"
    and fr: "fresh m node d"
    and ei: "get_edge_idx m (fst node) (snd node) d = Inr (int (edge_pos m node d))"
    and el: "if d = NORTH \<or> d = SOUTH then edge_pos m node d < length (horizontal_edges m)
             else edge_pos m node d < length (vertical_edges m)"
  shows "carve_inv (carved m node d) (st @ [neighbour node d])"
proof -
  let ?m' = "carved m node d" and ?nx = "neighbour node d"
  from inv have wf: "wf_maze m" and ec: "edges_closed m"
    and sg: "in_grid m (start_pos m)" and sv: "is_visited m (start_pos m)"
    and stk: "\<forall>p \<in> set st. in_grid m p \<and> is_visited m p"
    and fro: "\<And>p d. in_grid m p \<Longrightarrow> is_visited m p \<Longrightarrow> fresh m p d \<Longrightarrow> p \<in> set st"
    and cnt: "Suc (passages m) = length (filter id (visited m))"
    and rch: "\<And>p. in_grid m p \<Longrightarrow> is_visited m p \<Longrightarrow> reachable m p"
    unfolding carve_inv_def by blast+
  from fr wf have ng: "in_grid m ?nx" and nnv: "\<not> is_visited m ?nx" by (simp_all add: fresh_wf)
  have vis: "is_visited ?m' p = (p = ?nx \<or> is_visited m p)" if "in_grid m p" for p
  proof -
    have "cell_pos m p = cell_pos m ?nx \<longleftrightarrow> p = ?nx" using cell_pos_inj[OF that ng] by auto
    then show ?thesis by (simp add: carved_is_visited[OF wf ng])
  qed
  have 1: "wf_maze ?m'" using wf by simp
  have 2: "in_grid ?m' (start_pos ?m')" "is_visited ?m' (start_pos ?m')"
    using sg sv by (simp_all add: vis)
  have 3: "\<forall>p \<in> set (st @ [?nx]). in_grid ?m' p \<and> is_visited ?m' p"
    using stk ng by (auto simp: vis)
  have 4: "\<forall>p d'. in_grid ?m' p \<longrightarrow> is_visited ?m' p \<longrightarrow> fresh ?m' p d' \<longrightarrow> p \<in> set (st @ [?nx])"
  proof (intro allI impI)
    fix p d' assume a: "in_grid ?m' p" "is_visited ?m' p" "fresh ?m' p d'"
    from a(3) have f: "fresh m p d'" using wf by (auto simp: fresh_wf vis)
    from a(1,2) have "p = ?nx \<or> is_visited m p" by (simp add: vis)
    then show "p \<in> set (st @ [?nx])" using fro[OF _ _ f] a(1) by auto
  qed
  have 5: "Suc (passages ?m') = length (filter id (visited ?m'))"
    using carved_passages[OF ec wf nd fr el] carved_visited_count[OF wf fr] cnt by simp
  have rn: "reachable ?m' ?nx"
  proof -
    have "reachable ?m' node" using rch[OF nd nv] by (rule reachable_carved_mono)
    then show ?thesis using move_carved_new[OF nd ei el] by (rule reachable.step)
  qed
  have 6: "\<forall>p. in_grid ?m' p \<longrightarrow> is_visited ?m' p \<longrightarrow> reachable ?m' p"
    using rn rch reachable_carved_mono by (auto simp: vis)
  have 7: "edges_closed ?m'" using ec wf nd nv fr by (rule carved_edges_closed)
  show ?thesis unfolding carve_inv_def using 1 2 3 4 5 6 7 by blast
qed

lemma carve_dir_inv:
  assumes "carve_inv m st" "is_visited m node" "carve_dir node d (m, st) = Inr (m', st')"
  shows "carve_inv m' st' \<and> is_visited m' node"
proof -
  note cd = carve_dir_cases[OF assms(3)]
  then have nd: "in_grid m node" by simp
  show ?thesis
  proof (cases "fresh m node d")
    case False
    with cd assms show ?thesis by simp
  next
    case True
    with cd have eq: "m' = carved m node d" "st' = st @ [neighbour node d]"
      and ei: "get_edge_idx m (fst node) (snd node) d = Inr (int (edge_pos m node d))"
      and el: "if d = NORTH \<or> d = SOUTH then edge_pos m node d < length (horizontal_edges m)
             else edge_pos m node d < length (vertical_edges m)"
      by simp_all
    from assms(1) have wf: "wf_maze m" by (simp add: carve_inv_def)
    from True wf have ng: "in_grid m (neighbour node d)" by (simp add: fresh_wf)
    have "is_visited m' node" unfolding eq using assms(2) by (simp add: carved_is_visited[OF wf ng])
    moreover have "carve_inv m' st'" unfolding eq
      using assms(1) nd assms(2) True ei el by (rule carved_inv)
    ultimately show ?thesis by simp
  qed
qed

lemma carve_dirs_inv:
  "carve_inv m st \<Longrightarrow> is_visited m node \<Longrightarrow> carve_dirs node ds (m, st) = Inr (m', st') \<Longrightarrow>
     carve_inv m' st'"
proof (induction ds arbitrary: m st)
  case Nil
  then show ?case by simp
next
  case (Cons d ds)
  from Cons.prems(3) obtain m1 st1 where s1: "carve_dir node d (m, st) = Inr (m1, st1)"
    and rest: "carve_dirs node ds (m1, st1) = Inr (m', st')"
    by (cases "carve_dir node d (m, st)") auto
  from carve_dir_inv[OF Cons.prems(1,2) s1] have "carve_inv m1 st1" "is_visited m1 node" by simp_all
  then show ?case using rest by (rule Cons.IH)
qed

lemma carve_dirs_nofresh:
  "\<forall>d. \<not> fresh m node d \<Longrightarrow> carve_dirs node ds (m, st) = Inr s' \<Longrightarrow> s' = (m, st)"
proof (induction ds)
  case Nil
  then show ?case by simp
next
  case (Cons d ds)
  from Cons.prems(2) obtain s1 where s1: "carve_dir node d (m, st) = Inr s1"
    and rest: "carve_dirs node ds s1 = Inr s'"
    by (cases "carve_dir node d (m, st)") auto
  from carve_dir_cases[OF s1] Cons.prems(1) have "s1 = (m, st)" by simp
  with rest Cons show ?case by simp
qed

lemma carve_step_inv:
  assumes inv: "carve_inv m st" and ne: "st \<noteq> []" and step: "carve_step ds (m, st) = Inr (m', st')"
  shows "carve_inv m' st'"
proof -
  let ?node = "last st"
  from step obtain k where k: "has_non_visited_neighbours m (fst ?node) (snd ?node) = Inr k"
    and cd: "carve_dirs ?node ds (m, if k \<noteq> 0 then butlast st @ [?node] else butlast st) = Inr (m', st')"
    by (cases "has_non_visited_neighbours m (fst ?node) (snd ?node)") (auto simp: carve_step_def Let_def)
  note hf = has_non_visited_fresh[OF k, unfolded prod.collapse]
  from ne have mem: "?node \<in> set st" by simp
  with inv have nv: "is_visited m ?node" by (simp add: carve_inv_def)
  show ?thesis
  proof (cases "k = 0")
    case False
    with cd ne have "carve_dirs ?node ds (m, st) = Inr (m', st')" by simp
    with inv nv show ?thesis by (rule carve_dirs_inv)
  next
    case True
    with hf have nf: "\<forall>d. \<not> fresh m ?node d" by simp
    from cd True have "carve_dirs ?node ds (m, butlast st) = Inr (m', st')" by simp
    from carve_dirs_nofresh[OF nf this] have eq: "m' = m" "st' = butlast st" by simp_all
    have sub: "set (butlast st) \<subseteq> set st" by (auto dest: in_set_butlastD)
    have "p \<in> set (butlast st)" if "p \<in> set st" "p \<noteq> ?node" for p
      using that ne by (metis append_butlast_last_id insert_iff list.set(1) list.simps(15) rotate1.simps(2) set_rotate1)
    with inv nf sub show ?thesis unfolding eq carve_inv_def by blast
  qed
qed

lemma carve_loop_inv:
  "carve_inv (fst s) (snd s) \<Longrightarrow> carve_loop rnd k s = Inr m' \<Longrightarrow> carve_inv m' []"
proof (induction rnd k s rule: carve_loop.induct)
  case (1 rnd k s)
  show ?case
  proof (cases "snd s = []")
    case True
    with "1.prems" show ?thesis by (simp add: carve_loop.simps[of rnd k s])
  next
    case False
    with "1.prems"(2) obtain s' where s': "carve_step (shuffle rnd k) s = Inr s'"
      and rest: "carve_loop rnd (k + 3) s' = Inr m'"
      by (cases "carve_step (shuffle rnd k) s") (auto simp: carve_loop.simps[of rnd k s])
    have "carve_inv (fst s') (snd s')"
      using carve_step_inv[of "fst s" "snd s" "shuffle rnd k" "fst s'" "snd s'"] "1.prems"(1) False s'
      by simp
    with "1.IH"[OF False s'] rest show ?thesis by simp
  qed
qed


definition same_grid :: "maze \<Rightarrow> maze \<Rightarrow> bool" where
  "same_grid m m' =
     (n_rows m' = n_rows m \<and> n_cols m' = n_cols m \<and> start_pos m' = start_pos m \<and>
      goal_pos m' = goal_pos m)"

lemma same_grid_refl [simp]: "same_grid m m"
  by (simp add: same_grid_def)

lemma same_grid_trans: "same_grid m m1 \<Longrightarrow> same_grid m1 m2 \<Longrightarrow> same_grid m m2"
  by (simp add: same_grid_def)

lemma carve_dir_same_grid:
  "carve_dir node d (m, st) = Inr (m', st') \<Longrightarrow> same_grid m m'"
  by (drule carve_dir_cases) (auto simp: same_grid_def split: if_splits)

lemma carve_dirs_same_grid:
  "carve_dirs node ds (m, st) = Inr (m', st') \<Longrightarrow> same_grid m m'"
proof (induction ds arbitrary: m st)
  case Nil
  then show ?case by simp
next
  case (Cons d ds)
  from Cons.prems obtain m1 st1 where s1: "carve_dir node d (m, st) = Inr (m1, st1)"
    and rest: "carve_dirs node ds (m1, st1) = Inr (m', st')"
    by (cases "carve_dir node d (m, st)") auto
  from carve_dir_same_grid[OF s1] Cons.IH[OF rest] show ?case by (rule same_grid_trans)
qed

lemma carve_step_same_grid:
  "carve_step ds (m, st) = Inr (m', st') \<Longrightarrow> same_grid m m'"
  by (auto simp: carve_step_def Let_def split: sum.splits dest: carve_dirs_same_grid)

lemma carve_loop_same_grid:
  "carve_loop rnd k s = Inr m' \<Longrightarrow> same_grid (fst s) m'"
proof (induction rnd k s rule: carve_loop.induct)
  case (1 rnd k s)
  show ?case
  proof (cases "snd s = []")
    case True
    with "1.prems" show ?thesis by (simp add: carve_loop.simps[of rnd k s])
  next
    case False
    with "1.prems" obtain s' where s': "carve_step (shuffle rnd k) s = Inr s'"
      and rest: "carve_loop rnd (k + 3) s' = Inr m'"
      by (cases "carve_step (shuffle rnd k) s") (auto simp: carve_loop.simps[of rnd k s])
    have "same_grid (fst s) (fst s')"
      using carve_step_same_grid[of "shuffle rnd k" "fst s" "snd s" "fst s'" "snd s'"] s' by simp
    with "1.IH"[OF False s' rest] show ?thesis by (blast intro: same_grid_trans)
  qed
qed

lemma line_induct:
  fixes a b lo hi :: int
  assumes base: "P a"
    and up: "\<And>i. lo \<le> i \<Longrightarrow> i + 1 < hi \<Longrightarrow> P i \<Longrightarrow> P (i + 1)"
    and down: "\<And>i. lo \<le> i - 1 \<Longrightarrow> i < hi \<Longrightarrow> P i \<Longrightarrow> P (i - 1)"
    and a: "lo \<le> a" "a < hi" and b: "lo \<le> b" "b < hi"
  shows "P b"
proof (cases "a \<le> b")
  case True
  then have "b < hi \<longrightarrow> P b"
  proof (induction b rule: int_ge_induct)
    case base
    show ?case using assms(1) by simp
  next
    case (step i)
    then show ?case using up[of i] a by auto
  qed
  with b show ?thesis by simp
next
  case False
  then have "b \<le> a" by simp
  then have "lo \<le> b \<longrightarrow> P b"
  proof (induction b rule: int_le_induct)
    case base
    show ?case using assms(1) by simp
  next
    case (step i)
    then show ?case using down[of i] a by auto
  qed
  with b show ?thesis by simp
qed

lemma all_visited:
  assumes inv: "carve_inv m []" and p: "in_grid m p"
  shows "is_visited m p"
proof -
  from inv have wf: "wf_maze m" and sg: "in_grid m (start_pos m)" and sv: "is_visited m (start_pos m)"
    and cl: "\<And>q d. in_grid m q \<Longrightarrow> is_visited m q \<Longrightarrow> \<not> fresh m q d"
    unfolding carve_inv_def by auto
  have nb: "is_visited m (neighbour q d)" if "in_grid m q" "is_visited m q" "in_grid m (neighbour q d)" for q d
    using cl[OF that(1,2), of d] that(3) wf by (simp add: fresh_wf)
  obtain r0 c0 where s: "start_pos m = (r0, c0)" by (cases "start_pos m")
  obtain r c where pq: "p = (r, c)" by (cases p)
  from sg s have b0: "0 \<le> r0" "r0 < n_rows m" "0 \<le> c0" "c0 < n_cols m" by (auto simp: in_grid_def)
  from p pq have b: "0 \<le> r" "r < n_rows m" "0 \<le> c" "c < n_cols m" by (auto simp: in_grid_def)
  have row: "is_visited m (r0, c)"
  proof (rule line_induct[where P = "\<lambda>c. is_visited m (r0, c)" and a = c0 and lo = 0 and hi = "n_cols m"])
    show "is_visited m (r0, c0)" using sv s by simp
  next
    fix i assume "0 \<le> i" "i + 1 < n_cols m" "is_visited m (r0, i)"
    then show "is_visited m (r0, i + 1)"
      using nb[of "(r0, i)" EAST] b0 by (simp add: in_grid_def)
  next
    fix i assume "0 \<le> i - 1" "i < n_cols m" "is_visited m (r0, i)"
    then show "is_visited m (r0, i - 1)"
      using nb[of "(r0, i)" WEST] b0 by (simp add: in_grid_def)
  qed (use b0 b in auto)
  have "is_visited m (r, c)"
  proof (rule line_induct[where P = "\<lambda>r. is_visited m (r, c)" and a = r0 and lo = 0 and hi = "n_rows m"])
    show "is_visited m (r0, c)" by (rule row)
  next
    fix i assume "0 \<le> i" "i + 1 < n_rows m" "is_visited m (i, c)"
    then show "is_visited m (i + 1, c)"
      using nb[of "(i, c)" SOUTH] b by (simp add: in_grid_def)
  next
    fix i assume "0 \<le> i - 1" "i < n_rows m" "is_visited m (i, c)"
    then show "is_visited m (i - 1, c)"
      using nb[of "(i, c)" NORTH] b by (simp add: in_grid_def)
  qed (use b0 b in auto)
  then show ?thesis by (simp add: pq)
qed

lemma cell_pos_surj:
  assumes wf: "wf_maze m" and i: "i < length (visited m)"
  shows "\<exists>p. in_grid m p \<and> cell_pos m p = i"
proof -
  let ?n = "n_cols m"
  let ?p = "(int i div ?n, int i mod ?n)"
  from wf have n: "1 \<le> ?n" "1 \<le> n_rows m" and len: "length (visited m) = nat (n_rows m * ?n)"
    by (simp_all add: wf_maze_def)
  from i len have il: "int i < n_rows m * ?n" by simp
  have "int i div ?n < n_rows m"
  proof (rule ccontr)
    assume "\<not> int i div ?n < n_rows m"
    then have "n_rows m \<le> int i div ?n" by simp
    then have "n_rows m * ?n \<le> (int i div ?n) * ?n" using n by (intro mult_right_mono) auto
    moreover have "int i div ?n * ?n + int i mod ?n = int i" by (rule div_mult_mod_eq)
    moreover have "0 \<le> int i mod ?n" using n by simp
    ultimately show False using il by linarith
  qed
  moreover have "0 \<le> int i div ?n" using n by (simp add: pos_imp_zdiv_nonneg_iff)
  moreover have "0 \<le> int i mod ?n" "int i mod ?n < ?n" using n by simp_all
  ultimately have "in_grid m ?p" by (simp add: in_grid_def)
  moreover have "cell_pos m ?p = i"
  proof -
    have "int i div ?n * ?n + int i mod ?n = int i" by (rule div_mult_mod_eq)
    then show ?thesis by (simp add: cell_pos_def)
  qed
  ultimately show ?thesis by blast
qed

lemma filter_id_all: "\<forall>i < length xs. xs ! i \<Longrightarrow> length (filter id xs) = length xs"
proof -
  assume "\<forall>i < length xs. xs ! i"
  then have "\<forall>x \<in> set xs. id x" by (auto simp: in_set_conv_nth)
  then have "filter id xs = xs" by (rule filter_True)
  then show ?thesis by simp
qed

lemma carve_inv_final:
  assumes inv: "carve_inv m []"
  shows "int (passages m) = n_rows m * n_cols m - 1" and "\<forall>p. in_grid m p \<longrightarrow> reachable m p"
    and "\<forall>i < length (visited m). visited m ! i"
proof -
  from inv have wf: "wf_maze m" and cnt: "Suc (passages m) = length (filter id (visited m))"
    and rch: "\<And>p. in_grid m p \<Longrightarrow> is_visited m p \<Longrightarrow> reachable m p"
    unfolding carve_inv_def by auto
  show all: "\<forall>i < length (visited m). visited m ! i"
  proof (intro allI impI)
    fix i assume "i < length (visited m)"
    from cell_pos_surj[OF wf this] obtain p where "in_grid m p" "cell_pos m p = i" by blast
    with all_visited[OF inv, of p] show "visited m ! i" by (simp add: is_visited_def)
  qed
  from filter_id_all[OF all] cnt have "Suc (passages m) = nat (n_rows m * n_cols m)"
    using wf by (simp add: wf_maze_def)
  then show "int (passages m) = n_rows m * n_cols m - 1" by linarith
  show "\<forall>p. in_grid m p \<longrightarrow> reachable m p"
    using rch all_visited[OF inv] by blast
qed

subsection \<open>The invariant holds when carving starts\<close>

lemma init_maze_fields [simp]:
  "n_rows (init_maze nr nc sp gp) = nr"
  "n_cols (init_maze nr nc sp gp) = nc"
  "start_pos (init_maze nr nc sp gp) = sp"
  "goal_pos (init_maze nr nc sp gp) = (case gp of Some g \<Rightarrow> g | None \<Rightarrow> (nr - 1, nc - 1))"
  "horizontal_edges (init_maze nr nc sp gp) = replicate (nat ((nr - 1) * nc)) False"
  "vertical_edges (init_maze nr nc sp gp) = replicate (nat ((nc - 1) * nr)) False"
  "visited (init_maze nr nc sp gp) = replicate (nat (nr * nc)) False"
  by (simp_all add: init_maze_def)

definition started :: "maze \<Rightarrow> maze" where
  "started m = m\<lparr>visited := (visited m)[cell_pos m (start_pos m) := True]\<rparr>"

lemma carve_paths_cases:
  assumes "carve_paths rnd m = Inr m'"
  shows "in_grid m (start_pos m) \<and> cell_pos m (start_pos m) < length (visited m) \<and>
         carve_loop rnd 0 (started m, [start_pos m]) = Inr m'"
proof -
  let ?sp = "start_pos m"
  from assms have ig: "in_grid m ?sp"
    by (auto simp: carve_paths_def carve_path_iter_def get_cell_index_def in_grid_def split: if_splits)
  then have ci: "get_cell_index m (fst ?sp) (snd ?sp) = Inr (int (cell_pos m ?sp))"
    by (simp add: get_cell_index_def in_grid_def cell_pos_def)
  from assms ci obtain vis where vis: "setitem (visited m) (int (cell_pos m ?sp)) True = Inr vis"
    and lp: "carve_loop rnd 0 (m\<lparr>visited := vis\<rparr>, [?sp]) = Inr m'"
    by (cases "setitem (visited m) (int (cell_pos m ?sp)) True")
       (auto simp: carve_paths_def carve_path_iter_def)
  from vis have "cell_pos m ?sp < length (visited m)" "vis = (visited m)[cell_pos m ?sp := True]"
    by (simp_all add: setitem_nonneg)
  with ig lp show ?thesis by (simp add: started_def)
qed

lemma filter_id_replicate_False [simp]: "filter id (replicate n False) = []"
  by (induction n) auto

lemma init_inv:
  assumes ig: "in_grid (init_maze nr nc sp gp) sp"
  shows "carve_inv (started (init_maze nr nc sp gp)) [sp]"
proof -
  let ?ini = "init_maze nr nc sp gp" and ?m = "started (init_maze nr nc sp gp)"
  from ig have dims: "1 \<le> nr" "1 \<le> nc" by (auto simp: in_grid_def)
  have wf0: "wf_maze ?ini" using dims by (simp add: wf_maze_def)
  have f: "n_rows ?m = nr" "n_cols ?m = nc" "start_pos ?m = sp"
    "horizontal_edges ?m = replicate (nat ((nr - 1) * nc)) False"
    "vertical_edges ?m = replicate (nat ((nc - 1) * nr)) False"
    "visited ?m = (replicate (nat (nr * nc)) False)[cell_pos ?ini sp := True]"
    by (simp_all add: started_def)
  have g: "in_grid ?m p = in_grid ?ini p" "cell_pos ?m p = cell_pos ?ini p" for p
    by (simp_all add: in_grid_def cell_pos_def f)
  have jl: "cell_pos ?ini sp < nat (nr * nc)" using cell_pos_less[OF wf0 ig] by simp
  have wf: "wf_maze ?m" using dims by (simp add: wf_maze_def f)
  have vis: "is_visited ?m p = (p = sp)" if "in_grid ?ini p" for p
  proof -
    have "cell_pos ?ini p < nat (nr * nc)" using cell_pos_less[OF wf0 that] by simp
    moreover have "cell_pos ?ini p = cell_pos ?ini sp \<longleftrightarrow> p = sp"
      using cell_pos_inj[OF that ig] by auto
    ultimately show ?thesis using jl by (simp add: is_visited_def f g nth_update_True)
  qed
  have 3: "\<forall>p \<in> set [sp]. in_grid ?m p \<and> is_visited ?m p" using ig by (simp add: g vis)
  have 4: "\<forall>p d. in_grid ?m p \<longrightarrow> is_visited ?m p \<longrightarrow> fresh ?m p d \<longrightarrow> p \<in> set [sp]"
    by (simp add: g vis)
  have 5: "Suc (passages ?m) = length (filter id (visited ?m))"
    using jl by (simp add: passages_def f filter_id_update)
  have 6: "\<forall>p. in_grid ?m p \<longrightarrow> is_visited ?m p \<longrightarrow> reachable ?m p"
  proof (intro allI impI)
    fix p assume "in_grid ?m p" "is_visited ?m p"
    then have "p = start_pos ?m" by (simp add: g vis f)
    then show "reachable ?m p" by (simp add: reachable.start)
  qed
  have 7: "edges_closed ?m" by (simp add: edges_closed_def f)
  show ?thesis unfolding carve_inv_def using wf 3 4 5 6 7 ig by (simp add: g f vis)
qed

lemma create_inv:
  assumes "create nr nc sp gp rnd = Inr m"
  shows "carve_inv m [] \<and> same_grid (init_maze nr nc sp gp) m"
proof -
  let ?ini = "init_maze nr nc sp gp"
  from assms have cp: "carve_paths rnd ?ini = Inr m" by (simp add: create_def)
  from carve_paths_cases[OF cp] have ig: "in_grid ?ini sp"
    and lp: "carve_loop rnd 0 (started ?ini, [sp]) = Inr m" by simp_all
  from init_inv[OF ig] lp have "carve_inv m []"
    using carve_loop_inv[of "(started ?ini, [sp])" rnd 0 m] by simp
  moreover have "same_grid (started ?ini) m"
    using carve_loop_same_grid[OF lp] by simp
  then have "same_grid ?ini m" by (simp add: same_grid_def started_def)
  ultimately show ?thesis by simp
qed

subsection \<open>Carving cannot fail when there are at least as many columns as rows\<close>

lemma flat_bound:
  fixes r c R C :: int
  assumes "0 \<le> r" "r < R" "0 \<le> c" "c < C"
  shows "0 \<le> r * C + c \<and> r * C + c < R * C"
proof -
  have "(r + 1) * C \<le> R * C" by (rule mult_right_mono) (use assms in auto)
  then have "r * C + c < R * C" using assms by (simp add: algebra_simps)
  moreover have "0 \<le> r * C + c" using assms by simp
  ultimately show ?thesis by simp
qed

lemma edge_idx_ok:
  assumes wf: "wf_maze m" and nd: "in_grid m node" and ng: "in_grid m (neighbour node d)"
    and ew: "d = EAST \<or> d = WEST \<Longrightarrow> fst node < n_cols m"
  shows "get_edge_idx m (fst node) (snd node) d = Inr (int (edge_pos m node d)) \<and>
         (if d = NORTH \<or> d = SOUTH then edge_pos m node d < length (horizontal_edges m)
          else edge_pos m node d < length (vertical_edges m))"
proof -
  obtain r c where node: "node = (r, c)" by (cases node)
  from wf have lh: "length (horizontal_edges m) = nat ((n_rows m - 1) * n_cols m)"
    and lv: "length (vertical_edges m) = nat ((n_cols m - 1) * n_rows m)"
    by (simp_all add: wf_maze_def)
  from nd node have b: "0 \<le> r" "r < n_rows m" "0 \<le> c" "c < n_cols m" by (auto simp: in_grid_def)
  show ?thesis
  proof (cases d)
    case NORTH
    with ng node have r1: "0 \<le> r - 1" by (simp add: in_grid_def)
    from flat_bound[of "r - 1" "n_rows m - 1" c "n_cols m"] r1 b
    have "0 \<le> n_cols m * (r - 1) + c \<and> n_cols m * (r - 1) + c < (n_rows m - 1) * n_cols m"
      by (simp add: mult.commute)
    with NORTH r1 b show ?thesis by (simp add: node get_north_edge_idx_def lh)
  next
    case SOUTH
    with ng node have r1: "r < n_rows m - 1" by (simp add: in_grid_def)
    from flat_bound[of r "n_rows m - 1" c "n_cols m"] r1 b
    have "0 \<le> n_cols m * r + c \<and> n_cols m * r + c < (n_rows m - 1) * n_cols m"
      by (simp add: mult.commute)
    with SOUTH r1 b show ?thesis by (simp add: node get_south_edge_idx_def lh)
  next
    case EAST
    with ng node have c1: "c < n_cols m - 1" by (simp add: in_grid_def)
    from EAST ew node have rc: "r < n_cols m" by simp
    have e: "n_cols m * r - r + c = r * (n_cols m - 1) + c" by (simp add: algebra_simps)
    from flat_bound[of r "n_rows m" c "n_cols m - 1"] c1 b
    have "0 \<le> n_cols m * r - r + c \<and> n_cols m * r - r + c < (n_cols m - 1) * n_rows m"
      unfolding e by (simp add: mult.commute)
    with EAST c1 b rc show ?thesis by (simp add: node get_east_edge_idx_def lv)
  next
    case WEST
    with ng node have c1: "0 \<le> c - 1" by (simp add: in_grid_def)
    from WEST ew node have rc: "r < n_cols m" by simp
    have e: "n_cols m * r - r + (c - 1) = r * (n_cols m - 1) + (c - 1)" by (simp add: algebra_simps)
    from flat_bound[of r "n_rows m" "c - 1" "n_cols m - 1"] c1 b
    have "0 \<le> n_cols m * r - r + (c - 1) \<and> n_cols m * r - r + (c - 1) < (n_cols m - 1) * n_rows m"
      unfolding e by (simp add: mult.commute)
    with WEST c1 b rc show ?thesis by (simp add: node get_west_edge_idx_def lv)
  qed
qed

lemma getitem_nat: "getitem xs (int i) = (if i < length xs then Inr (xs ! i) else Inl IndexError)"
  by (simp add: getitem_def index_ok_def norm_index_def)

lemma setitem_nat: "setitem xs (int i) v = (if i < length xs then Inr (xs[i := v]) else Inl IndexError)"
  by (simp add: setitem_def index_ok_def norm_index_def)

lemma set_edge_at_ok:
  assumes "get_edge_idx m r c d = Inr (int e)"
    and "if d = NORTH \<or> d = SOUTH then e < length (horizontal_edges m) else e < length (vertical_edges m)"
  shows "\<exists>m1. set_edge_at m r c d True = Inr m1"
  using assms by (auto simp: set_edge_at_def setitem_nat split: if_splits)

lemma carve_dir_ok:
  assumes wf: "wf_maze m" and nd: "in_grid m node" and sq: "n_rows m \<le> n_cols m"
  shows "\<exists>s'. carve_dir node d (m, st) = Inr s'"
proof (cases "in_grid m (neighbour node d)")
  case False
  with nd show ?thesis by (simp add: carve_dir_eq)
next
  case True
  let ?nx = "neighbour node d"
  note ci = cell_idx_pos[OF True]
  from cell_pos_less[OF wf True] have g: "getitem (visited m) (cell_idx m ?nx) = Inr (visited m ! cell_pos m ?nx)"
    by (simp add: ci getitem_nonneg)
  show ?thesis
  proof (cases "visited m ! cell_pos m ?nx")
    case True
    with nd \<open>in_grid m ?nx\<close> g show ?thesis by (simp add: carve_dir_eq)
  next
    case False
    from nd sq have "fst node < n_cols m" by (simp add: in_grid_def)
    with edge_idx_ok[OF wf nd \<open>in_grid m ?nx\<close>] set_edge_at_ok
    obtain m1 where m1: "set_edge_at m (fst node) (snd node) d True = Inr m1" by blast
    from set_edge_at_True[OF m1] have "visited m1 = visited m" by (auto split: if_splits)
    with cell_pos_less[OF wf \<open>in_grid m ?nx\<close>]
    have "setitem (visited m1) (cell_idx m ?nx) True = Inr ((visited m)[cell_pos m ?nx := True])"
      by (simp add: ci setitem_nonneg)
    with nd \<open>in_grid m ?nx\<close> g False m1 show ?thesis by (simp add: carve_dir_eq)
  qed
qed

lemma carve_dirs_ok:
  "carve_inv m st \<Longrightarrow> in_grid m node \<Longrightarrow> is_visited m node \<Longrightarrow> n_rows m \<le> n_cols m \<Longrightarrow>
     \<exists>s'. carve_dirs node ds (m, st) = Inr s'"
proof (induction ds arbitrary: m st)
  case Nil
  then show ?case by simp
next
  case (Cons d ds)
  from Cons.prems(1) have wf: "wf_maze m" by (simp add: carve_inv_def)
  from carve_dir_ok[OF wf Cons.prems(2,4)] obtain m1 st1 where
    s1: "carve_dir node d (m, st) = Inr (m1, st1)" by (metis surj_pair)
  from carve_dir_inv[OF Cons.prems(1,3) s1] have i1: "carve_inv m1 st1" "is_visited m1 node" by simp_all
  from carve_dir_same_grid[OF s1] Cons.prems(2,4) have "in_grid m1 node" "n_rows m1 \<le> n_cols m1"
    by (simp_all add: same_grid_def in_grid_def)
  with Cons.IH[OF i1(1) _ i1(2)] s1 show ?case by simp
qed

lemma not_visited_ok:
  "wf_maze m \<Longrightarrow> in_grid m (r, c) \<Longrightarrow> \<exists>b. not_visited m r c = Inr b"
  using cell_pos_less[of m "(r, c)"] cell_idx_pos[of m "(r, c)"]
  by (simp add: not_visited_def get_cell_index_def in_grid_def cell_idx_def getitem_nat)

lemma count_if_ok: "(g \<Longrightarrow> \<exists>b. t = Inr b) \<Longrightarrow> \<exists>k. count_if g t c = Inr k"
  by (auto simp: count_if_def)

lemma has_non_visited_ok:
  assumes wf: "wf_maze m" and nd: "in_grid m (r, c)"
  shows "\<exists>k. has_non_visited_neighbours m r c = Inr k"
proof -
  from nd have b: "0 \<le> r" "r < n_rows m" "0 \<le> c" "c < n_cols m" by (auto simp: in_grid_def)
  obtain c1 where 1: "count_if (r > 0) (not_visited m (r - 1) c) 0 = Inr c1"
    using count_if_ok[of "r > 0" "not_visited m (r - 1) c" 0] not_visited_ok[OF wf, of "r - 1" c] b
    by (auto simp: in_grid_def)
  obtain c2 where 2: "count_if (r < n_rows m - 1) (not_visited m (r + 1) c) c1 = Inr c2"
    using count_if_ok[of "r < n_rows m - 1" "not_visited m (r + 1) c" c1] not_visited_ok[OF wf, of "r + 1" c] b
    by (auto simp: in_grid_def)
  obtain c3 where 3: "count_if (c > 0) (not_visited m r (c - 1)) c2 = Inr c3"
    using count_if_ok[of "c > 0" "not_visited m r (c - 1)" c2] not_visited_ok[OF wf, of r "c - 1"] b
    by (auto simp: in_grid_def)
  obtain k where 4: "count_if (c < n_cols m - 1) (not_visited m r (c + 1)) c3 = Inr k"
    using count_if_ok[of "c < n_cols m - 1" "not_visited m r (c + 1)" c3] not_visited_ok[OF wf, of r "c + 1"] b
    by (auto simp: in_grid_def)
  from 1 2 3 4 show ?thesis by (simp add: has_non_visited_neighbours_def)
qed

lemma carve_step_ok:
  assumes inv: "carve_inv m st" and ne: "st \<noteq> []" and sq: "n_rows m \<le> n_cols m"
  shows "\<exists>s'. carve_step ds (m, st) = Inr s'"
proof -
  let ?node = "last st"
  from inv ne have nd: "in_grid m ?node" and nv: "is_visited m ?node" and wf: "wf_maze m"
    by (simp_all add: carve_inv_def)
  from has_non_visited_ok[OF wf, of "fst ?node" "snd ?node"] nd obtain k where
    k: "has_non_visited_neighbours m (fst ?node) (snd ?node) = Inr k" by auto
  show ?thesis
  proof (cases "k = 0")
    case False
    from carve_dirs_ok[OF inv nd nv sq, of ds] obtain s' where "carve_dirs ?node ds (m, st) = Inr s'" ..
    with k False ne show ?thesis by (simp add: carve_step_def Let_def)
  next
    case True
    with has_non_visited_fresh[OF k] have nf: "\<forall>d. \<not> fresh m ?node d" by simp
    have "carve_dirs ?node ds (m, st0) = Inr (m, st0)" for st0
    proof (induction ds)
      case Nil
      show ?case by simp
    next
      case (Cons d ds)
      from carve_dir_ok[OF wf nd sq, of d st0] obtain s1 where s1: "carve_dir ?node d (m, st0) = Inr s1" ..
      with carve_dir_cases[OF s1] nf have "carve_dir ?node d (m, st0) = Inr (m, st0)" by simp
      with Cons show ?case by simp
    qed
    with k True show ?thesis by (simp add: carve_step_def Let_def)
  qed
qed

lemma carve_loop_ok:
  "carve_inv (fst s) (snd s) \<Longrightarrow> n_rows (fst s) \<le> n_cols (fst s) \<Longrightarrow> \<exists>m'. carve_loop rnd k s = Inr m'"
proof (induction rnd k s rule: carve_loop.induct)
  case (1 rnd k s)
  show ?case
  proof (cases "snd s = []")
    case True
    then show ?thesis by (simp add: carve_loop.simps[of rnd k s])
  next
    case False
    from carve_step_ok[of "fst s" "snd s" "shuffle rnd k"] "1.prems" False
    obtain s' where s': "carve_step (shuffle rnd k) s = Inr s'" by auto
    have inv': "carve_inv (fst s') (snd s')"
      using carve_step_inv[of "fst s" "snd s" "shuffle rnd k" "fst s'" "snd s'"] "1.prems"(1) False s'
      by simp
    have "same_grid (fst s) (fst s')"
      using carve_step_same_grid[of "shuffle rnd k" "fst s" "snd s" "fst s'" "snd s'"] s' by simp
    with "1.prems"(2) have "n_rows (fst s') \<le> n_cols (fst s')" by (simp add: same_grid_def)
    from "1.IH"[OF False s' inv' this] s' False show ?thesis
      by (simp add: carve_loop.simps[of rnd k s])
  qed
qed

lemma create_ok:
  assumes "0 \<le> fst sp" "fst sp < nr" "0 \<le> snd sp" "snd sp < nc" "nr \<le> nc"
  shows "\<exists>m. create nr nc sp gp rnd = Inr m"
proof -
  let ?ini = "init_maze nr nc sp gp"
  from assms have ig: "in_grid ?ini sp" by (simp add: in_grid_def)
  from assms have wf: "wf_maze ?ini" by (simp add: wf_maze_def)
  have ci: "get_cell_index ?ini (fst sp) (snd sp) = Inr (int (cell_pos ?ini sp))"
    using ig by (simp add: get_cell_index_def in_grid_def cell_pos_def)
  have si: "setitem (visited ?ini) (int (cell_pos ?ini sp)) True = Inr (visited (started ?ini))"
    using cell_pos_less[OF wf ig] by (simp add: setitem_nonneg started_def)
  have "carve_paths rnd ?ini = carve_loop rnd 0 (started ?ini, [sp])"
    using ci si by (simp add: carve_paths_def carve_path_iter_def started_def)
  moreover have "\<exists>m. carve_loop rnd 0 (started ?ini, [sp]) = Inr m"
    using carve_loop_ok[of "(started ?ini, [sp])" rnd 0] init_inv[OF ig] assms(5)
    by (simp add: started_def)
  ultimately show ?thesis by (simp add: create_def)
qed

lemma create_rejects:
  assumes "\<not> (0 \<le> fst sp \<and> fst sp < nr \<and> 0 \<le> snd sp \<and> snd sp < nc)"
  shows "create nr nc sp gp rnd = Inl AssertionError"
  using assms by (auto simp: create_def carve_paths_def carve_path_iter_def get_cell_index_def)

subsection \<open>Movement\<close>

lemma move_outward:
  assumes "in_grid m pos" and "\<not> in_grid m (neighbour pos d)"
  shows "move m pos d = Inl AssertionError"
proof -
  obtain r c where pos: "pos = (r, c)" by (cases pos)
  from assms have "get_edge_idx m r c d = Inl AssertionError"
    unfolding pos
    by (cases d) (auto simp: in_grid_def get_north_edge_idx_def get_south_edge_idx_def
        get_east_edge_idx_def get_west_edge_idx_def)
  then show ?thesis
    by (simp add: move_def get_edge_at_def pos)
qed

lemma move_inward:
  assumes wf: "wf_maze m" and nd: "in_grid m pos" and ng: "in_grid m (neighbour pos d)"
    and ew: "d = EAST \<or> d = WEST \<Longrightarrow> fst pos < n_cols m"
  shows "\<exists>passage. get_edge_at m (fst pos) (snd pos) d = Inr passage \<and>
           move m pos d = (if passage then Inr (True, neighbour pos d) else Inr (False, pos))"
proof -
  from edge_idx_ok[OF wf nd ng ew] obtain b where "get_edge_at m (fst pos) (snd pos) d = Inr b"
    by (auto simp: get_edge_at_def getitem_nat split: if_splits)
  moreover have "get_cell_at m (fst pos) (snd pos) d = Inr (neighbour pos d)"
    using nd by (simp add: get_cell_at_def in_grid_def)
  ultimately show ?thesis by (simp add: move_def)
qed

section \<open>Example mazes\<close>

definition maze_1x1 :: maze where
  "maze_1x1 = \<lparr>n_rows = 1, n_cols = 1, start_pos = (0, 0), goal_pos = (0, 0),
      horizontal_edges = [], vertical_edges = [], visited = [True]\<rparr>"

lemma create_1x1: "create 1 1 (0, 0) None (\<lambda>_. 0) = Inr maze_1x1"
  by code_simp

definition maze_2x2 :: maze where
  "maze_2x2 = \<lparr>n_rows = 2, n_cols = 2, start_pos = (0, 0), goal_pos = (1, 1),
      horizontal_edges = [True, True], vertical_edges = [True, False],
      visited = [True, True, True, True]\<rparr>"

lemma shuffle_0: "shuffle (\<lambda>_. 0) k = [SOUTH, EAST, WEST, NORTH]"
  by (simp add: shuffle_def swap_def)

lemma create_2x2: "create 2 2 (0, 0) None (\<lambda>_. 0) = Inr maze_2x2"
  by code_simp

definition maze_2x3 :: maze where
  "maze_2x3 = \<lparr>n_rows = 2, n_cols = 3, start_pos = (0, 0), goal_pos = (1, 2),
      horizontal_edges = [True, True, True], vertical_edges = [True, True, False, False],
      visited = [True, True, True, True, True, True]\<rparr>"

lemma create_2x3: "create 2 3 (0, 0) None (\<lambda>_. 0) = Inr maze_2x3"
  by code_simp

definition maze_3x2 :: maze where
  "maze_3x2 = \<lparr>n_rows = 3, n_cols = 2, start_pos = (0, 0), goal_pos = (2, 1),
      horizontal_edges = [True, False, True, True], vertical_edges = [True, True, False],
      visited = [True, True, True, True, True, True]\<rparr>"

lemma create_3x2: "create 3 2 (0, 0) None Suc = Inr maze_3x2"
  by code_simp

section \<open>Claims\<close>

text \<open>
  C1 (as the code has it). The specification says that \<open>move\<close> at a grid boundary in the
  outward direction returns \<open>(False, pos)\<close> and never raises. In the code \<open>move\<close> calls
  \<open>_get_edge_at\<close> without a bounds check, and the edge-index functions assert that the
  edge exists: for every maze, every in-bounds position and every direction whose
  neighbour lies outside the grid, \<open>move\<close> fails with \<open>AssertionError\<close>.
\<close>

theorem move_outward_fails:
  assumes "in_grid m pos" and "\<not> in_grid m (neighbour pos d)"
  shows "move m pos d = Inl AssertionError"
  using assms by (rule move_outward)

theorem move_outward_fails_witness:
  "in_grid maze_1x1 (0, 0) \<and> \<not> in_grid maze_1x1 (neighbour (0, 0) NORTH) \<and>
   move maze_1x1 (0, 0) NORTH = Inl AssertionError"
  using move_outward_fails[of maze_1x1 "(0, 0)" NORTH]
  by (simp add: in_grid_def maze_1x1_def)

text \<open>
  C1 as stated fails on the constructed 1x1 maze: moving north from \<open>(0, 0)\<close> does not
  return \<open>(False, (0, 0))\<close>.
\<close>

theorem move_boundary_counterexample:
  "create 1 1 (0, 0) None (\<lambda>_. 0) = Inr maze_1x1 \<and>
   move maze_1x1 (0, 0) NORTH \<noteq> Inr (False, (0, 0))"
  by (simp add: create_1x1) (simp add: move_def get_edge_at_def get_north_edge_idx_def maze_1x1_def)

text \<open>
  C4. For every maze that construction returns (any dimensions, any random source), the
  number of \<open>True\<close> entries of the two edge arrays together is \<open>n_rows * n_cols - 1\<close>,
  and every cell of the grid is reachable from the start cell by \<open>move\<close> steps that
  succeed, that is, across passages only.
\<close>

theorem spanning_tree:
  assumes "create nr nc sp gp rnd = Inr m"
  shows "n_rows m = nr \<and> n_cols m = nc \<and> start_pos m = sp \<and>
         int (passages m) = nr * nc - 1 \<and>
         (\<forall>p. in_grid m p \<longrightarrow> reachable m p)"
proof -
  from create_inv[OF assms] have inv: "carve_inv m []" and sg: "same_grid (init_maze nr nc sp gp) m"
    by simp_all
  from sg have "n_rows m = nr" "n_cols m = nc" "start_pos m = sp" by (simp_all add: same_grid_def)
  with carve_inv_final(1,2)[OF inv] show ?thesis by simp
qed

theorem spanning_tree_witness:
  "create 2 2 (0, 0) None (\<lambda>_. 0) = Inr maze_2x2 \<and> int (passages maze_2x2) = 2 * 2 - 1 \<and>
   reachable maze_2x2 (1, 1)"
  using spanning_tree[OF create_2x2] by (simp add: create_2x2 in_grid_def maze_2x2_def)

text \<open>
  C2. The specification says that construction cannot fail for any grid of at least 1x1
  and any in-bounds start cell. The row assertion of \<open>_get_east_edge_idx\<close> and
  \<open>_get_west_edge_idx\<close> compares the row with \<open>_n_cols\<close>, so carving an east or west
  edge in a row \<open>\<ge> n_cols\<close> fails: constructing a 3x2 maze from start cell \<open>(2, 0)\<close>
  raises \<open>AssertionError\<close>.
\<close>

theorem construction_fails_3x2:
  "create 3 2 (2, 0) None (\<lambda>_. 0) = Inl AssertionError"
  by code_simp

text \<open>
  C3 (as the code has it). Construction fails, with \<open>AssertionError\<close>, exactly when the
  start cell is outside the grid, which is always so when \<open>n_rows < 1\<close> or
  \<open>n_cols < 1\<close>; the goal cell is never validated. With an in-grid start cell and
  \<open>n_rows \<le> n_cols\<close>, construction returns a maze whose goal is the one given (or the
  default), wherever it lies.
\<close>

theorem create_outcome:
  "(\<not> (0 \<le> fst sp \<and> fst sp < nr \<and> 0 \<le> snd sp \<and> snd sp < nc) \<longrightarrow>
      create nr nc sp gp rnd = Inl AssertionError) \<and>
   (0 \<le> fst sp \<and> fst sp < nr \<and> 0 \<le> snd sp \<and> snd sp < nc \<and> nr \<le> nc \<longrightarrow>
      (\<exists>m. create nr nc sp gp rnd = Inr m \<and>
           goal_pos m = (case gp of Some g \<Rightarrow> g | None \<Rightarrow> (nr - 1, nc - 1))))"
proof (intro conjI impI)
  assume "\<not> (0 \<le> fst sp \<and> fst sp < nr \<and> 0 \<le> snd sp \<and> snd sp < nc)"
  then show "create nr nc sp gp rnd = Inl AssertionError" by (rule create_rejects)
next
  assume a: "0 \<le> fst sp \<and> fst sp < nr \<and> 0 \<le> snd sp \<and> snd sp < nc \<and> nr \<le> nc"
  then obtain m where m: "create nr nc sp gp rnd = Inr m" using create_ok[of sp nr nc gp rnd] by blast
  from create_inv[OF m] have "goal_pos m = (case gp of Some g \<Rightarrow> g | None \<Rightarrow> (nr - 1, nc - 1))"
    by (simp add: same_grid_def)
  with m show "\<exists>m. create nr nc sp gp rnd = Inr m \<and>
      goal_pos m = (case gp of Some g \<Rightarrow> g | None \<Rightarrow> (nr - 1, nc - 1))" by simp
qed

theorem create_outcome_witness:
  "create 0 5 (0, 0) None (\<lambda>_. 0) = Inl AssertionError \<and>
   create 2 2 (0, 2) None (\<lambda>_. 0) = Inl AssertionError \<and>
   (\<exists>m. create 2 2 (0, 0) (Some (7, 7)) (\<lambda>_. 0) = Inr m \<and> goal_pos m = (7, 7))"
  using create_outcome[of "(0, 0)" 0 5 None "\<lambda>_. 0"] create_outcome[of "(0, 2)" 2 2 None "\<lambda>_. 0"]
    create_outcome[of "(0, 0)" 2 2 "Some (7, 7)" "\<lambda>_. 0"]
  by simp

text \<open>
  C3 as stated fails: a goal cell outside the 1x1 grid is accepted and a maze is returned.
\<close>

theorem create_goal_unchecked_counterexample:
  "create 1 1 (0, 0) (Some (5, 5)) (\<lambda>_. 0) = Inr (maze_1x1\<lparr>goal_pos := (5, 5)\<rparr>)"
  unfolding maze_1x1_def by code_simp

text \<open>
  C5 (as the code has it). For every constructed maze and every in-grid cell: when the
  neighbour in the direction is inside the grid (and, for \<open>EAST\<close> and \<open>WEST\<close>, the
  row is below \<open>n_cols\<close>), the edge flag is read without error and \<open>move\<close> returns
  \<open>(True, neighbour)\<close> if it is a passage and \<open>(False, pos)\<close> otherwise; when the
  neighbour is outside the grid, \<open>move\<close> fails with \<open>AssertionError\<close>.
\<close>

theorem move_edge_consistency:
  assumes "create nr nc sp gp rnd = Inr m" and "in_grid m pos"
  shows "(in_grid m (neighbour pos d) \<and> (d = EAST \<or> d = WEST \<longrightarrow> fst pos < n_cols m) \<longrightarrow>
            (\<exists>passage. get_edge_at m (fst pos) (snd pos) d = Inr passage \<and>
               move m pos d = (if passage then Inr (True, neighbour pos d) else Inr (False, pos)))) \<and>
         (\<not> in_grid m (neighbour pos d) \<longrightarrow> move m pos d = Inl AssertionError)"
proof -
  from create_inv[OF assms(1)] have wf: "wf_maze m" by (simp add: carve_inv_def)
  show ?thesis using move_inward[OF wf assms(2)] move_outward[OF assms(2)] by blast
qed

theorem move_edge_consistency_witness:
  "create 2 2 (0, 0) None (\<lambda>_. 0) = Inr maze_2x2 \<and> in_grid maze_2x2 (0, 0) \<and>
   in_grid maze_2x2 (neighbour (0, 0) SOUTH) \<and>
   get_edge_at maze_2x2 0 0 SOUTH = Inr True \<and>
   move maze_2x2 (0, 0) SOUTH = Inr (True, (1, 0)) \<and>
   \<not> in_grid maze_2x2 (neighbour (0, 0) WEST) \<and>
   move maze_2x2 (0, 0) WEST = Inl AssertionError"
proof -
  have g: "in_grid maze_2x2 (0, 0)" by (simp add: in_grid_def maze_2x2_def)
  have e: "get_edge_at maze_2x2 0 0 SOUTH = Inr True"
    by (simp add: get_edge_at_def get_south_edge_idx_def getitem_nat[of _ 0, simplified] maze_2x2_def)
  show ?thesis
    using move_edge_consistency[OF create_2x2 g, of SOUTH] move_edge_consistency[OF create_2x2 g, of WEST] e
    by (simp add: create_2x2 in_grid_def) (auto simp: maze_2x2_def)
qed

text \<open>
  C5 as stated fails: from the bottom-right cell of the constructed 2x2 maze, \<open>move\<close>
  to the south returns neither \<open>(True, n)\<close> nor \<open>(False, pos)\<close>.
\<close>

theorem move_south_boundary_counterexample:
  "create 2 2 (0, 0) None (\<lambda>_. 0) = Inr maze_2x2 \<and>
   move maze_2x2 (1, 1) SOUTH = Inl AssertionError"
  by (simp add: create_2x2) (simp add: move_def get_edge_at_def get_south_edge_idx_def maze_2x2_def)

text \<open>
  C7. \<open>_get_cell_coords\<close> divides by \<open>_n_rows\<close> where the index was built with
  \<open>_n_cols\<close>: on a 2x3 grid the cell \<open>(0, 2)\<close> has index 2, which is mapped back to
  \<open>(1, 0)\<close>.
\<close>

theorem cell_coords_roundtrip_fails:
  "create 2 3 (0, 0) None (\<lambda>_. 0) = Inr maze_2x3 \<and>
   get_cell_index maze_2x3 0 2 = Inr 2 \<and> get_cell_coords maze_2x3 2 = Inr (1, 0)"
  by (simp add: create_2x3) (simp add: get_cell_index_def get_cell_coords_def maze_2x3_def)

text \<open>
  C8. On a constructed 3x2 maze the cells \<open>(2, 0)\<close> and \<open>(2, 1)\<close> are in the grid and
  adjacent, but neither the east edge index of the first nor the west edge index of the
  second exists: both fail the row assertion against \<open>_n_cols\<close>.
\<close>

theorem east_edge_idx_fails:
  "create 3 2 (0, 0) None Suc = Inr maze_3x2 \<and>
   in_grid maze_3x2 (2, 0) \<and> in_grid maze_3x2 (2, 1) \<and>
   get_edge_idx maze_3x2 2 0 EAST = Inl AssertionError \<and>
   get_edge_idx maze_3x2 2 1 WEST = Inl AssertionError"
  by (simp add: create_3x2) (simp add: in_grid_def get_east_edge_idx_def get_west_edge_idx_def maze_3x2_def)

text \<open>
  C9. On a 3x2 grid with start cell \<open>(0, 0)\<close> and the random source that always draws 0,
  the carving loop is left by an \<open>AssertionError\<close>: the stack does not become empty.
\<close>

theorem carve_loop_fails_3x2:
  "carve_path_iter (\<lambda>_. 0) (init_maze 3 2 (0, 0) None) (0, 0) = Inl AssertionError"
  by code_simp

end
